theory Spec2Isabelle
  imports Main "HOL-Library.Word" "HOL-Library.Sublist"
begin

section \<open>Strings\<close>

text \<open>
  A JavaScript string is modelled as a \<^typ>\<open>string\<close>: a list of code units, here
  restricted to the code units 0 to 255 (Latin-1). The helpers of this section are the
  \<^verbatim>\<open>String.prototype\<close> methods that \<^verbatim>\<open>cli.js\<close> calls, on that range.
\<close>

abbreviation quote :: char where
  "quote \<equiv> CHR 0x27"

definition isWhiteSpace :: "char \<Rightarrow> bool" where
  \<comment> \<open>WhiteSpace and LineTerminator of ECMAScript below U+0100: what \<^verbatim>\<open>trim\<close> strips
      and what \<^verbatim>\<open>\s\<close> matches.\<close>
  "isWhiteSpace c \<longleftrightarrow>
     c = CHR 0x09 \<or> c = CHR 0x0A \<or> c = CHR 0x0B \<or> c = CHR 0x0C \<or> c = CHR 0x0D
     \<or> c = CHR 0x20 \<or> c = CHR 0xA0"

definition trimStart :: "string \<Rightarrow> string" where
  "trimStart s = dropWhile isWhiteSpace s"

definition trimEnd :: "string \<Rightarrow> string" where
  "trimEnd s = rev (dropWhile isWhiteSpace (rev s))"

definition trim :: "string \<Rightarrow> string" where
  "trim s = trimEnd (trimStart s)"

definition startsWith :: "string \<Rightarrow> string \<Rightarrow> bool" where
  "startsWith s p \<longleftrightarrow> take (length p) s = p"

definition endsWith :: "string \<Rightarrow> string \<Rightarrow> bool" where
  "endsWith s p \<longleftrightarrow> startsWith (rev s) (rev p)"

fun join :: "string \<Rightarrow> string list \<Rightarrow> string" where
  "join sep [] = []"
| "join sep [x] = x"
| "join sep (x # y # ys) = x @ sep @ join sep (y # ys)"

fun indexOf :: "string \<Rightarrow> string \<Rightarrow> int" where
  "indexOf [] p = (if p = [] then 0 else - 1)"
| "indexOf (c # s) p =
     (if startsWith (c # s) p then 0
      else (let i = indexOf s p in if i < 0 then - 1 else i + 1))"

fun lastIndexOf :: "string \<Rightarrow> string \<Rightarrow> int" where
  "lastIndexOf [] p = (if p = [] then 0 else - 1)"
| "lastIndexOf (c # s) p =
     (let i = lastIndexOf s p
      in if i \<ge> 0 then i + 1 else if startsWith (c # s) p then 0 else - 1)"

section \<open>The tokenizer: \<^verbatim>\<open>parseValues\<close>\<close>

text \<open>
  \<^verbatim>\<open>parseValues\<close> is the same function in both variants of the command-line tool
  (lines 107 to 141 and 504 to 542 of \<^verbatim>\<open>cli.js\<close>). Its \<^verbatim>\<open>for\<close> loop reads one
  character, looks one character ahead at a quote inside a quoted string, and skips
  that character when it is a quote too. The loop is the recursion \<open>parseLoop\<close> on the
  characters not yet read; its other arguments are the local variables of the source.
\<close>

fun parseLoop ::
  "string \<Rightarrow> string list \<Rightarrow> string \<Rightarrow> bool \<Rightarrow> char option
     \<Rightarrow> string list \<times> string \<times> bool \<times> char option"
where
  "parseLoop [] values currentVal inQuotes quoteChar =
     (values, currentVal, inQuotes, quoteChar)"
| "parseLoop (c # rest) values currentVal inQuotes quoteChar =
     (if c = quote \<and> \<not> inQuotes then
        parseLoop rest values (currentVal @ [c]) True (Some quote)
      else if c = quote \<and> inQuotes \<and> quoteChar = Some quote then
        (case rest of
           c' # rest' \<Rightarrow>
             if c' = quote then
               parseLoop rest' values (currentVal @ [quote, quote]) inQuotes quoteChar
             else parseLoop rest values (currentVal @ [c]) False None
         | [] \<Rightarrow> parseLoop rest values (currentVal @ [c]) False None)
      else if c = CHR '','' \<and> \<not> inQuotes then
        parseLoop rest (values @ [trim currentVal]) [] inQuotes quoteChar
      else parseLoop rest values (currentVal @ [c]) inQuotes quoteChar)"

definition parseValues :: "string \<Rightarrow> string list" where
  "parseValues valuesString =
     (case parseLoop valuesString [] [] False None of
        (values, currentVal, inQuotes, quoteChar) \<Rightarrow>
          if trim currentVal \<noteq> [] \<or> length values > 0 \<or> trim valuesString = []
          then values @ [trim currentVal]
          else values)"

definition inQuotesAfter :: "string \<Rightarrow> bool" where
  \<comment> \<open>the value of \<^verbatim>\<open>inQuotes\<close> when the loop of \<^verbatim>\<open>parseValues\<close> has read all of \<open>s\<close>\<close>
  "inQuotesAfter s = fst (snd (snd (parseLoop s [] [] False None)))"

section \<open>Regular expressions\<close>

text \<open>
  The classifier and the tuple extractor are regular expressions run by the backtracking
  matcher of ECMAScript. The matcher is modelled by the list of its successes:
  \<open>matches ic r s\<close> lists, in the order in which backtracking tries them, the rests of
  \<open>s\<close> after a match of \<open>r\<close> at the start of \<open>s\<close>; the first element is the match the
  engine returns. \<open>ic\<close> is the flag \<^verbatim>\<open>i\<close>.
\<close>

definition toUpperChar :: "char \<Rightarrow> string" where
  \<comment> \<open>\<^verbatim>\<open>toUpperCase\<close> of one code unit below U+0100. U+00DF becomes \<^verbatim>\<open>SS\<close>; U+00B5 and
      U+00FF, whose upper-case partners lie outside the range, are kept.\<close>
  "toUpperChar c =
     (let n = (of_char c :: nat)
      in if 97 \<le> n \<and> n \<le> 122 then [char_of (n - 32)]
         else if n = 223 then ''SS''
         else if 224 \<le> n \<and> n \<le> 254 \<and> n \<noteq> 247 then [char_of (n - 32)]
         else [c])"

definition toUpperCase :: "string \<Rightarrow> string" where
  "toUpperCase s = concat (map toUpperChar s)"

definition canonicalize :: "bool \<Rightarrow> char \<Rightarrow> char" where
  \<comment> \<open>Canonicalize of the ECMAScript pattern semantics, without the flag \<^verbatim>\<open>u\<close>.\<close>
  "canonicalize ic c =
     (if ic then (case toUpperChar c of [u] \<Rightarrow> u | _ \<Rightarrow> c) else c)"

definition isWordChar :: "char \<Rightarrow> bool" where
  "isWordChar c \<longleftrightarrow>
     (let n = (of_char c :: nat)
      in (48 \<le> n \<and> n \<le> 57) \<or> (65 \<le> n \<and> n \<le> 90) \<or> n = 95 \<or> (97 \<le> n \<and> n \<le> 122))"

datatype atom =
    Lit char              \<comment> \<open>a pattern character\<close>
  | Space                 \<comment> \<open>\<^verbatim>\<open>\s\<close>\<close>
  | Word                  \<comment> \<open>\<^verbatim>\<open>\w\<close>\<close>
  | NotIn "char list"     \<comment> \<open>a negated class \<^verbatim>\<open>[^...]\<close> of single characters\<close>

datatype regex =
    Atom atom
  | Eps
  | Seq regex regex
  | Alt regex regex
  | Star regex            \<comment> \<open>greedy \<^verbatim>\<open>*\<close>\<close>
  | StarLazy regex        \<comment> \<open>lazy \<^verbatim>\<open>*?\<close>\<close>

fun atomMatches :: "bool \<Rightarrow> atom \<Rightarrow> char \<Rightarrow> bool" where
  "atomMatches ic (Lit a) c \<longleftrightarrow> canonicalize ic a = canonicalize ic c"
| "atomMatches ic Space c \<longleftrightarrow> isWhiteSpace c"
| "atomMatches ic Word c \<longleftrightarrow> isWordChar c"
| "atomMatches ic (NotIn as) c \<longleftrightarrow> \<not> (\<exists>a \<in> set as. canonicalize ic a = canonicalize ic c)"

text \<open>
  An iteration of a star that consumes nothing is not tried (ECMAScript rejects it),
  which is also what makes the iteration end.
\<close>

function star :: "(string \<Rightarrow> string list) \<Rightarrow> string \<Rightarrow> string list" where
  "star m s = concat (map (\<lambda>s'. if length s' < length s then star m s' else []) (m s)) @ [s]"
  by pat_completeness auto
termination
  by (relation "measure (\<lambda>(m, s). length s)") auto

function starLazy :: "(string \<Rightarrow> string list) \<Rightarrow> string \<Rightarrow> string list" where
  "starLazy m s =
     s # concat (map (\<lambda>s'. if length s' < length s then starLazy m s' else []) (m s))"
  by pat_completeness auto
termination
  by (relation "measure (\<lambda>(m, s). length s)") auto

declare star.simps [simp del] starLazy.simps [simp del]

fun matches :: "bool \<Rightarrow> regex \<Rightarrow> string \<Rightarrow> string list" where
  "matches ic (Atom a) s =
     (case s of [] \<Rightarrow> [] | c # s' \<Rightarrow> if atomMatches ic a c then [s'] else [])"
| "matches ic Eps s = [s]"
| "matches ic (Seq r1 r2) s = concat (map (matches ic r2) (matches ic r1 s))"
| "matches ic (Alt r1 r2) s = matches ic r1 s @ matches ic r2 s"
| "matches ic (Star r) s = star (matches ic r) s"
| "matches ic (StarLazy r) s = starLazy (matches ic r) s"

definition Plus :: "regex \<Rightarrow> regex" where
  \<comment> \<open>greedy \<^verbatim>\<open>+\<close>\<close>
  "Plus r = Seq r (Star r)"

definition Opt :: "regex \<Rightarrow> regex" where
  \<comment> \<open>greedy \<^verbatim>\<open>?\<close>: the group first, then nothing\<close>
  "Opt r = Alt r Eps"

definition Seqs :: "regex list \<Rightarrow> regex" where
  "Seqs rs = foldr Seq rs Eps"

definition Str :: "string \<Rightarrow> regex" where
  \<comment> \<open>a run of pattern characters\<close>
  "Str cs = Seqs (map (\<lambda>c. Atom (Lit c)) cs)"

text \<open>
  \<^verbatim>\<open>search\<close>, and \<^verbatim>\<open>match\<close> without the flag \<^verbatim>\<open>g\<close>, try the start positions from left
  to right: \<open>search\<close> is the index of the first position with a match.
\<close>

fun search :: "bool \<Rightarrow> regex \<Rightarrow> string \<Rightarrow> nat option" where
  "search ic r [] = (if matches ic r [] = [] then None else Some 0)"
| "search ic r (c # s) =
     (if matches ic r (c # s) = [] then map_option Suc (search ic r s) else Some 0)"

text \<open>
  A regular expression with one capture group that is a factor of a top-level sequence
  is kept as its three factors: what stands before the group, the group, what stands
  after it. \<open>execAt\<close> is one match attempt at the start of \<open>s\<close>: the whole match, the text
  of group 1 and the rest, for the first success of the backtracking order.
\<close>

type_synonym groupRegex = "regex \<times> regex \<times> regex"

definition execAt :: "bool \<Rightarrow> groupRegex \<Rightarrow> string \<Rightarrow> (string \<times> string \<times> string) option" where
  "execAt ic R s =
     (case R of (lead, group1, trail) \<Rightarrow>
        (case concat (map (\<lambda>s1. concat (map (\<lambda>s2. map (\<lambda>s3. (s1, s2, s3)) (matches ic trail s2))
                                            (matches ic group1 s1)))
                       (matches ic lead s)) of
           [] \<Rightarrow> None
         | (s1, s2, s3) # _ \<Rightarrow>
             Some (take (length s - length s3) s, take (length s1 - length s2) s1, s3)))"

text \<open>
  \<^verbatim>\<open>exec\<close> tries the start positions from \<^verbatim>\<open>lastIndex\<close> on; \<open>execFrom\<close> also returns the
  text it skipped before the match.
\<close>

fun execFrom ::
  "bool \<Rightarrow> groupRegex \<Rightarrow> string \<Rightarrow> (string \<times> string \<times> string \<times> string) option"
where
  "execFrom ic R [] =
     (case execAt ic R [] of
        None \<Rightarrow> None
      | Some (full, g1, rest) \<Rightarrow> Some ([], full, g1, rest))"
| "execFrom ic R (c # s) =
     (case execAt ic R (c # s) of
        Some (full, g1, rest) \<Rightarrow> Some ([], full, g1, rest)
      | None \<Rightarrow>
          (case execFrom ic R s of
             None \<Rightarrow> None
           | Some (gap, full, g1, rest) \<Rightarrow> Some (c # gap, full, g1, rest)))"

text \<open>
  The loop \<^verbatim>\<open>while ((m = re.exec(str)) !== null)\<close> of a regular expression with the flag
  \<^verbatim>\<open>g\<close>: every match with the text between it and the match before, and the text after
  the last match. A match that consumes nothing would leave \<^verbatim>\<open>lastIndex\<close> where it is;
  both expressions of the source consume at least an opening parenthesis
  (\<open>execAt_valueSetRegex_shorter\<close> below), so the test on the lengths is always true for
  them.
\<close>

function execAll ::
  "bool \<Rightarrow> groupRegex \<Rightarrow> string \<Rightarrow> (string \<times> string \<times> string) list \<times> string"
where
  "execAll ic R s =
     (case execFrom ic R s of
        None \<Rightarrow> ([], s)
      | Some (gap, full, g1, rest) \<Rightarrow>
          if length rest < length s
          then (case execAll ic R rest of (ms, tail) \<Rightarrow> ((gap, full, g1) # ms, tail))
          else ([], s))"
  by pat_completeness auto
termination
  by (relation "measure (\<lambda>(ic, R, s). length s)") auto

declare execAll.simps [simp del]

section \<open>Configuration, diagnostics and counters\<close>

type_synonym byte = "8 word"

record config =
  targetTableName :: string
  columnIndicesToAnonymize :: "nat list"   \<comment> \<open>0-based, as \<^verbatim>\<open>coerce\<close> returns them\<close>
  entropy :: "nat \<Rightarrow> byte"                \<comment> \<open>the bytes \<^verbatim>\<open>crypto.randomBytes\<close> will return, in order\<close>

datatype diag =
    BoundsMismatch nat nat int   \<comment> \<open>line or statement number, values found, index needed\<close>
  | IndexOutOfBounds nat nat nat \<comment> \<open>line number, index, number of values\<close>
  | NoFinalSemicolon
  | ProcessingError

record run =
  processedStatements :: nat
  successfullyAnonymizedStatements :: nat
  statementsWithErrors :: nat
  statementsWithSkippedAnonymization :: nat
  written :: "string list"     \<comment> \<open>the arguments of \<^verbatim>\<open>writer.write\<close>, in order\<close>
  diagnostics :: "diag list"   \<comment> \<open>\<^verbatim>\<open>console.warn\<close> and \<^verbatim>\<open>console.error\<close>, in order\<close>
  entropyPos :: nat            \<comment> \<open>how many bytes of \<open>entropy\<close> are used up\<close>

definition writerWrite :: "string \<Rightarrow> 'a run_scheme \<Rightarrow> 'a run_scheme" where
  "writerWrite str st = st\<lparr>written := written st @ [str]\<rparr>"

definition consoleWarn :: "diag \<Rightarrow> 'a run_scheme \<Rightarrow> 'a run_scheme" where
  "consoleWarn d st = st\<lparr>diagnostics := diagnostics st @ [d]\<rparr>"

definition run0 :: run where
  "run0 = \<lparr>processedStatements = 0, successfullyAnonymizedStatements = 0,
           statementsWithErrors = 0, statementsWithSkippedAnonymization = 0,
           written = [], diagnostics = [], entropyPos = 0\<rparr>"

section \<open>The replacement token\<close>

definition randomBytes :: "(nat \<Rightarrow> byte) \<Rightarrow> nat \<Rightarrow> nat \<Rightarrow> byte list \<times> nat" where
  "randomBytes ent pos n = (map ent [pos ..< pos + n], pos + n)"

definition hexDigit :: "nat \<Rightarrow> char" where
  "hexDigit d = ''0123456789abcdef'' ! d"

definition toHex :: "byte list \<Rightarrow> string" where
  \<comment> \<open>\<^verbatim>\<open>Buffer.toString('hex')\<close>: two lower-case digits for each byte\<close>
  "toHex bs = concat (map (\<lambda>b. [hexDigit (unat b div 16), hexDigit (unat b mod 16)]) bs)"

definition generateRandomQuotedString :: "(nat \<Rightarrow> byte) \<Rightarrow> nat \<Rightarrow> nat \<Rightarrow> string \<times> nat" where
  \<comment> \<open>\<open>len\<close> is the parameter \<^verbatim>\<open>length\<close>; the result is the token and the new position
      in the entropy. \<^verbatim>\<open>Math.ceil(length / 2)\<close> is \<open>(len + 1) div 2\<close>.\<close>
  "generateRandomQuotedString ent len pos =
     (case randomBytes ent pos ((len + 1) div 2) of
        (bytes, pos') \<Rightarrow>
          (let randomHex = take len (toHex bytes);
               randomString = [quote] @ randomHex @ [quote]
           in (randomString, pos')))"

definition defaultLength :: nat where
  "defaultLength = 16"

definition maxIndex :: "nat list \<Rightarrow> int" where
  \<comment> \<open>\<^verbatim>\<open>columnIndicesToAnonymize.length > 0 ? Math.max(...columnIndicesToAnonymize) : -1\<close>\<close>
  "maxIndex cols = (if length cols > 0 then int (fold max cols 0) else - 1)"

section \<open>The first variant: statements read line by line (lines 1 to 420)\<close>

definition insertRegex1 :: "string \<Rightarrow> regex" where
  \<comment> \<open>Line 85, flag \<^verbatim>\<open>i\<close>. Line 78 escapes every metacharacter of the table name, so the
      name stands in the pattern as a run of pattern characters.\<close>
  "insertRegex1 table =
     Seqs [Str ''INSERT'', Plus (Atom Space), Str ''INTO'', Plus (Atom Space),
           Opt (Seq (Plus (Atom Word)) (Atom (Lit CHR ''.''))),
           Str table,
           Star (Atom Space),
           Opt (Seqs [Atom (Lit CHR ''(''), Star (Atom (NotIn '')'')), Atom (Lit CHR '')''),
                      Star (Atom Space)]),
           Opt (Seq (Alt (Seqs [Str ''OVERRIDING'', Plus (Atom Space),
                                Alt (Str ''SYSTEM'') (Str ''USER''), Plus (Atom Space),
                                Str ''VALUE''])
                     (Alt (Seqs [Str ''DEFAULT'', Plus (Atom Space), Str ''VALUES''])
                          (StarLazy (Atom (NotIn '';()'')))))
                    (Plus (Atom Space))),
           Str ''VALUES'', Star (Atom Space), Atom (Lit CHR ''('')]"

definition valuesRegex1 :: regex where
  \<comment> \<open>line 276: \<^verbatim>\<open>/\sVALUES\s*\(/i\<close>\<close>
  "valuesRegex1 = Seqs [Atom Space, Str ''VALUES'', Star (Atom Space), Atom (Lit CHR ''('')]"

definition valueSetRegex1 :: groupRegex where
  \<comment> \<open>line 291: \<^verbatim>\<open>/\(\s*([^()]*?(?:\([^()]*\)[^()]*?)*?)\s*\)/gs\<close>\<close>
  "valueSetRegex1 =
     (Seq (Atom (Lit CHR ''('')) (Star (Atom Space)),
      Seq (StarLazy (Atom (NotIn ''()'')))
          (StarLazy (Seqs [Atom (Lit CHR ''(''), Star (Atom (NotIn ''()'')), Atom (Lit CHR '')''),
                           StarLazy (Atom (NotIn ''()''))])),
      Seq (Star (Atom Space)) (Atom (Lit CHR '')'')))"

definition safetyCheck :: "string \<Rightarrow> bool" where
  \<comment> \<open>the condition of line 317, under its comment \<^verbatim>\<open>SAFETY CHECK\<close>\<close>
  "safetyCheck originalValue \<longleftrightarrow>
     startsWith originalValue [quote] \<or> toUpperCase originalValue = ''NULL''"

text \<open>
  The callback of \<^verbatim>\<open>columnIndicesToAnonymize.forEach\<close> (lines 313 to 330), over the
  indices still to visit. \<open>modified\<close> is \<^verbatim>\<open>valueSetModified\<close>.
\<close>

fun forEach1 ::
  "config \<Rightarrow> nat \<Rightarrow> nat list \<Rightarrow> string list \<Rightarrow> bool \<Rightarrow> 'a run_scheme
     \<Rightarrow> string list \<times> bool \<times> 'a run_scheme"
where
  "forEach1 cfg endLineNumber [] vals modified st = (vals, modified, st)"
| "forEach1 cfg endLineNumber (index # indices) vals modified st =
     (if index < length vals then
        (let originalValue = vals ! index
         in if safetyCheck originalValue then
              (case generateRandomQuotedString (entropy cfg) defaultLength (entropyPos st) of
                 (newValue, pos') \<Rightarrow>
                   forEach1 cfg endLineNumber indices (vals[index := newValue]) True
                     (st\<lparr>entropyPos := pos'\<rparr>))
            else forEach1 cfg endLineNumber indices vals modified st)
      else forEach1 cfg endLineNumber indices vals modified
             (consoleWarn (IndexOutOfBounds endLineNumber index (length vals)) st))"

text \<open>
  The body of the first \<^verbatim>\<open>while\<close> loop (lines 296 to 347) for one match: the text pushed
  on \<^verbatim>\<open>newValueSets\<close> and whether the value set was modified. Nothing in the \<^verbatim>\<open>try\<close>
  block throws, so its \<^verbatim>\<open>catch\<close> is not a branch of the model, and
  \<^verbatim>\<open>statementHadAnonymizationError\<close> stays false.
\<close>

definition valueSet1 ::
  "config \<Rightarrow> nat \<Rightarrow> string \<Rightarrow> string \<Rightarrow> 'a run_scheme \<Rightarrow> string \<times> bool \<times> 'a run_scheme"
where
  "valueSet1 cfg endLineNumber fullMatch group1 st =
     (let valuesString = trim group1;
          vals = parseValues valuesString;
          mx = maxIndex (columnIndicesToAnonymize cfg)
      in if mx \<ge> int (length vals) then
           (fullMatch, False, consoleWarn (BoundsMismatch endLineNumber (length vals) mx) st)
         else
           (case forEach1 cfg endLineNumber (columnIndicesToAnonymize cfg) vals False st of
              (vals', valueSetModified, st') \<Rightarrow>
                if valueSetModified
                then (''( '' @ join '', '' vals' @ '' )'', True, st')
                else (fullMatch, False, st')))"

fun valueSetLoop1 ::
  "config \<Rightarrow> nat \<Rightarrow> (string \<times> string \<times> string) list \<Rightarrow> 'a run_scheme
     \<Rightarrow> string list \<times> bool \<times> 'a run_scheme"
where
  "valueSetLoop1 cfg endLineNumber [] st = ([], False, st)"
| "valueSetLoop1 cfg endLineNumber ((gap, fullMatch, group1) # ms) st =
     (case valueSet1 cfg endLineNumber fullMatch group1 st of
        (pushed, valueSetModified, st') \<Rightarrow>
          (case valueSetLoop1 cfg endLineNumber ms st' of
             (newValueSets, overallModified, st'') \<Rightarrow>
               (pushed # newValueSets, valueSetModified \<or> overallModified, st'')))"

text \<open>
  The second \<^verbatim>\<open>while\<close> loop (lines 352 to 365) runs the expression over the same text again
  and so meets the same matches: the text before each match, then the entry of
  \<^verbatim>\<open>newValueSets\<close> at its position, then the text after the last match. An index past the
  end of the array reads \<^verbatim>\<open>undefined\<close>, which the concatenation prints.
\<close>

fun reconstruct :: "(string \<times> string \<times> string) list \<Rightarrow> string list \<Rightarrow> string \<Rightarrow> string" where
  "reconstruct [] newValueSets tail = tail"
| "reconstruct ((gap, fullMatch, group1) # ms) [] tail =
     gap @ ''undefined'' @ reconstruct ms [] tail"
| "reconstruct ((gap, fullMatch, group1) # ms) (v # newValueSets) tail =
     gap @ v @ reconstruct ms newValueSets tail"

definition processStatement1 ::
  "config \<Rightarrow> string \<Rightarrow> nat \<Rightarrow> 'a run_scheme \<Rightarrow> 'a run_scheme"
where
  "processStatement1 cfg statement endLineNumber st0 =
     (let st = st0\<lparr>processedStatements := processedStatements st0 + 1\<rparr>
      in if search True (insertRegex1 (targetTableName cfg)) statement \<noteq> None then
           (case search True valuesRegex1 statement of
              None \<Rightarrow>
                (writerWrite statement st)
                  \<lparr>statementsWithSkippedAnonymization :=
                     statementsWithSkippedAnonymization st + 1\<rparr>
            | Some valuesIndex \<Rightarrow>
                (let prefix = take valuesIndex statement;
                     valuesPart = drop valuesIndex statement
                 in case execAll False valueSetRegex1 valuesPart of
                      (ms, tail) \<Rightarrow>
                        (case valueSetLoop1 cfg endLineNumber ms st of
                           (newValueSets, overallModified, st1) \<Rightarrow>
                             if overallModified then
                               (writerWrite (prefix @ reconstruct ms newValueSets tail) st1)
                                 \<lparr>successfullyAnonymizedStatements :=
                                    successfullyAnonymizedStatements st1 + 1\<rparr>
                             else
                               (writerWrite statement
                                  (st1\<lparr>statementsWithSkippedAnonymization :=
                                        statementsWithSkippedAnonymization st1 + 1\<rparr>)))))
         else
           (writerWrite statement st)
             \<lparr>statementsWithSkippedAnonymization := statementsWithSkippedAnonymization st + 1\<rparr>)"

text \<open>
  The handler of the \<^verbatim>\<open>line\<close> event (lines 176 to 213). \<open>lineStatements\<close> is its decision:
  the statements it hands to \<^verbatim>\<open>processStatement\<close>, in order, and the new
  \<^verbatim>\<open>currentStatementBuffer\<close>. The input is the list of lines as \<^verbatim>\<open>readline\<close> delivers
  them, without their line ends.
\<close>

fun splitOn :: "char \<Rightarrow> string \<Rightarrow> string list" where
  \<comment> \<open>\<^verbatim>\<open>split\<close> with a separator of one character\<close>
  "splitOn sep [] = [[]]"
| "splitOn sep (c # s) =
     (if c = sep then [] # splitOn sep s
      else (case splitOn sep s of
              [] \<Rightarrow> [[c]]
            | part # parts \<Rightarrow> (c # part) # parts))"

definition lineStatements :: "string \<Rightarrow> string \<Rightarrow> string list \<times> string" where
  "lineStatements currentBuffer line =
     (let buffer = currentBuffer @ line @ ''\<newline>''
      in if endsWith (trimEnd line) '';'' then
           (if indexOf line '';'' \<noteq> lastIndexOf line '';'' then
              (filter (\<lambda>part. trim part \<noteq> [])
                 (map (\<lambda>part. part @ '';'') (butlast (splitOn CHR '';'' buffer))), [])
            else ([buffer], []))
         else ([], buffer))"

record lineDriver = run +
  currentStatementBuffer :: string
  lineNumber :: nat

definition onLine1 :: "config \<Rightarrow> string \<Rightarrow> lineDriver \<Rightarrow> lineDriver" where
  "onLine1 cfg line d =
     (let n = lineNumber d + 1
      in case lineStatements (currentStatementBuffer d) line of
           (statements, buffer) \<Rightarrow>
             (foldl (\<lambda>d' statement. processStatement1 cfg statement n d')
                    (d\<lparr>lineNumber := n\<rparr>) statements)
               \<lparr>currentStatementBuffer := buffer\<rparr>)"

definition onClose1 :: "config \<Rightarrow> lineDriver \<Rightarrow> lineDriver" where
  \<comment> \<open>lines 216 to 222\<close>
  "onClose1 cfg d =
     (if trim (currentStatementBuffer d) \<noteq> [] then
        processStatement1 cfg (currentStatementBuffer d) (lineNumber d)
          (consoleWarn NoFinalSemicolon d)
      else d)"

definition lineDriver0 :: lineDriver where
  "lineDriver0 = run.extend run0 \<lparr>currentStatementBuffer = [], lineNumber = 0\<rparr>"

definition processFile1 :: "config \<Rightarrow> string list \<Rightarrow> lineDriver" where
  "processFile1 cfg lines = onClose1 cfg (foldl (\<lambda>d line. onLine1 cfg line d) lineDriver0 lines)"

section \<open>The second variant: statements cut out of stream chunks (lines 422 to 737)\<close>

definition insertRegex2 :: "string \<Rightarrow> regex" where
  \<comment> \<open>Line 492, flag \<^verbatim>\<open>i\<close>, without its leading \<^verbatim>\<open>^\<close>: the anchor (there is no flag
      \<^verbatim>\<open>m\<close>) makes \<^verbatim>\<open>test\<close> a match at index 0, which is how the expression is used.\<close>
  "insertRegex2 table =
     Seqs [Star (Atom Space), Str ''INSERT'', Plus (Atom Space), Str ''INTO'', Plus (Atom Space),
           Opt (Seq (Plus (Atom Word)) (Atom (Lit CHR ''.''))),
           Str table,
           Plus (Atom Space), Str ''VALUES'', Star (Atom Space), Atom (Lit CHR ''('')]"

definition valueSetRegex2 :: groupRegex where
  \<comment> \<open>line 637: \<^verbatim>\<open>/\(([^()]*(?:\([^()]*\)[^()]*)*)\)/g\<close>\<close>
  "valueSetRegex2 =
     (Atom (Lit CHR ''(''),
      Seq (Star (Atom (NotIn ''()'')))
          (Star (Seqs [Atom (Lit CHR ''(''), Star (Atom (NotIn ''()'')), Atom (Lit CHR '')''),
                       Star (Atom (NotIn ''()''))])),
      Atom (Lit CHR '')''))"

text \<open>The callback of \<^verbatim>\<open>forEach\<close> in the second variant (lines 672 to 679).\<close>

fun forEach2 ::
  "config \<Rightarrow> nat list \<Rightarrow> string list \<Rightarrow> bool \<Rightarrow> 'a run_scheme
     \<Rightarrow> string list \<times> bool \<times> 'a run_scheme"
where
  "forEach2 cfg [] vals modified st = (vals, modified, st)"
| "forEach2 cfg (index # indices) vals modified st =
     (if index < length vals then
        (case generateRandomQuotedString (entropy cfg) defaultLength (entropyPos st) of
           (newValue, pos') \<Rightarrow>
             forEach2 cfg indices (vals[index := newValue]) True (st\<lparr>entropyPos := pos'\<rparr>))
      else forEach2 cfg indices vals modified st)"

definition valueSet2 ::
  "config \<Rightarrow> string \<Rightarrow> string \<Rightarrow> 'a run_scheme \<Rightarrow> string \<times> bool \<times> 'a run_scheme"
where
  "valueSet2 cfg fullMatch valuesString st =
     (let vals = parseValues valuesString;
          mx = maxIndex (columnIndicesToAnonymize cfg)
      in if mx \<ge> int (length vals) then
           (fullMatch, False, consoleWarn (BoundsMismatch (processedStatements st) (length vals) mx) st)
         else
           (case forEach2 cfg (columnIndicesToAnonymize cfg) vals False st of
              (vals', valueSetModified, st') \<Rightarrow>
                if valueSetModified
                then (''('' @ join '', '' vals' @ '')'', True, st')
                else (fullMatch, False, st')))"

fun valueSetLoop2 ::
  "config \<Rightarrow> (string \<times> string \<times> string) list \<Rightarrow> 'a run_scheme
     \<Rightarrow> string list \<times> bool \<times> 'a run_scheme"
where
  "valueSetLoop2 cfg [] st = ([], False, st)"
| "valueSetLoop2 cfg ((gap, fullMatch, group1) # ms) st =
     (case valueSet2 cfg fullMatch group1 st of
        (pushed, valueSetModified, st') \<Rightarrow>
          (case valueSetLoop2 cfg ms st' of
             (valueSets, modified, st'') \<Rightarrow>
               (pushed # valueSets, valueSetModified \<or> modified, st'')))"

definition processStatement2 :: "config \<Rightarrow> string \<Rightarrow> 'a run_scheme \<Rightarrow> 'a run_scheme" where
  "processStatement2 cfg statement st0 =
     (let st = st0\<lparr>processedStatements := processedStatements st0 + 1\<rparr>
      in if matches True (insertRegex2 (targetTableName cfg)) statement \<noteq> [] then
           (let valuesPos = indexOf (toUpperCase statement) ''VALUES''
            in if valuesPos = - 1 then
                 writerWrite (statement @ [CHR 0x0A])
                   (consoleWarn ProcessingError
                      (st\<lparr>statementsWithErrors := statementsWithErrors st + 1\<rparr>))
               else
                 (let prefix = take (nat valuesPos + length ''VALUES'') statement;
                      valuesPart = drop (nat valuesPos + length ''VALUES'') statement
                  in case execAll False valueSetRegex2 valuesPart of
                       (ms, tail) \<Rightarrow>
                         (case valueSetLoop2 cfg ms st of
                            (valueSets, modified, st1) \<Rightarrow>
                              if modified then
                                (writerWrite (prefix @ '' '' @ join [CHR '','', CHR 0x0A, CHR 0x09] valueSets
                                          @ '';'' @ [CHR 0x0A, CHR 0x0A]) st1)
                                  \<lparr>successfullyAnonymizedStatements :=
                                     successfullyAnonymizedStatements st1 + 1\<rparr>
                              else
                                (writerWrite (statement @ [CHR 0x0A]) st1)
                                  \<lparr>statementsWithSkippedAnonymization :=
                                     statementsWithSkippedAnonymization st1 + 1\<rparr>)))
         else writerWrite (statement @ [CHR 0x0A]) st)"

text \<open>
  The handler of the \<^verbatim>\<open>data\<close> event (lines 579 to 590). \<open>dataLoop\<close> is its \<^verbatim>\<open>while\<close> loop:
  the statements cut off the front of the buffer, in order, and what is left of the
  buffer. The input is the list of chunks as the stream delivers them.
\<close>

lemma indexOf_lower: "- 1 \<le> indexOf s p"
  by (induction s) (auto simp: Let_def)

function dataLoop :: "string \<Rightarrow> string list \<times> string" where
  "dataLoop buffer =
     (if indexOf buffer '';'' \<noteq> - 1 then
        (case dataLoop (drop (nat (indexOf buffer '';'' + 1)) buffer) of
           (statements, rest) \<Rightarrow> (take (nat (indexOf buffer '';'' + 1)) buffer # statements, rest))
      else ([], buffer))"
  by pat_completeness auto
termination
proof (relation "measure length")
  show "wf (measure length)" by simp
next
  fix buffer :: string
  assume found: "indexOf buffer '';'' \<noteq> - 1"
  then have "buffer \<noteq> []" by auto
  moreover have "0 \<le> indexOf buffer '';''"
    using found indexOf_lower [of buffer "'';''"] by simp
  ultimately show "(drop (nat (indexOf buffer '';'' + 1)) buffer, buffer) \<in> measure length"
    by simp
qed

declare dataLoop.simps [simp del]

record chunkDriver = run +
  buffer :: string

definition onData2 :: "config \<Rightarrow> string \<Rightarrow> chunkDriver \<Rightarrow> chunkDriver" where
  "onData2 cfg chunk d =
     (case dataLoop (buffer d @ chunk) of
        (statements, rest) \<Rightarrow>
          (foldl (\<lambda>d' statement. processStatement2 cfg statement d') d statements)
            \<lparr>buffer := rest\<rparr>)"

definition onEnd2 :: "config \<Rightarrow> chunkDriver \<Rightarrow> chunkDriver" where
  \<comment> \<open>lines 592 to 596\<close>
  "onEnd2 cfg d = (if trim (buffer d) \<noteq> [] then processStatement2 cfg (buffer d) d else d)"

definition chunkDriver0 :: chunkDriver where
  "chunkDriver0 = run.extend run0 \<lparr>buffer = []\<rparr>"

definition processFile2 :: "config \<Rightarrow> string list \<Rightarrow> chunkDriver" where
  "processFile2 cfg chunks =
     onEnd2 cfg (foldl (\<lambda>d chunk. onData2 cfg chunk d) chunkDriver0 chunks)"

section \<open>Vocabulary of the properties\<close>


definition isToken :: "config \<Rightarrow> string \<Rightarrow> bool" where
  "isToken cfg v \<longleftrightarrow> (\<exists>pos. v = fst (generateRandomQuotedString (entropy cfg) defaultLength pos))"

definition tupleModified1 :: "nat list \<Rightarrow> string list \<Rightarrow> bool" where
  \<comment> \<open>some field of a tuple with the fields \<open>vals\<close> is replaced by the first variant: every
      requested index is in range and a requested field passes the safety check\<close>
  "tupleModified1 cols vals \<longleftrightarrow>
     maxIndex cols < int (length vals) \<and> list_ex (\<lambda>i. safetyCheck (vals ! i)) cols"

definition tupleModified2 :: "nat list \<Rightarrow> string list \<Rightarrow> bool" where
  \<comment> \<open>the same for the second variant, which has no safety check\<close>
  "tupleModified2 cols vals \<longleftrightarrow> maxIndex cols < int (length vals) \<and> cols \<noteq> []"


definition exampleEntropy :: "nat \<Rightarrow> byte" where
  "exampleEntropy i = of_nat (17 * i + 3)"

definition exampleConfig :: "string \<Rightarrow> nat list \<Rightarrow> config" where
  "exampleConfig table cols =
     \<lparr>targetTableName = table, columnIndicesToAnonymize = cols, entropy = exampleEntropy\<rparr>"

definition tuples1 :: "string \<Rightarrow> (string \<times> string \<times> string) list" where
  \<comment> \<open>the matches of the first variant's tuple pattern in a statement: for each, the text
      before it, the match and its group 1\<close>
  "tuples1 statement =
     (case search True valuesRegex1 statement of
        None \<Rightarrow> []
      | Some valuesIndex \<Rightarrow> fst (execAll False valueSetRegex1 (drop valuesIndex statement)))"

definition tuples2 :: "string \<Rightarrow> (string \<times> string \<times> string) list" where
  \<comment> \<open>the same for the second variant\<close>
  "tuples2 statement =
     (let valuesPos = indexOf (toUpperCase statement) ''VALUES''
      in if valuesPos = - 1 then []
         else fst (execAll False valueSetRegex2 (drop (nat valuesPos + length ''VALUES'') statement)))"

definition statementModified1 :: "config \<Rightarrow> string \<Rightarrow> bool" where
  \<comment> \<open>the statement matches the first variant's signature and a field of one of its tuples
      is replaced\<close>
  "statementModified1 cfg statement \<longleftrightarrow>
     search True (insertRegex1 (targetTableName cfg)) statement \<noteq> None
     \<and> list_ex (\<lambda>m. tupleModified1 (columnIndicesToAnonymize cfg) (parseValues (trim (snd (snd m)))))
          (tuples1 statement)"

definition statementModified2 :: "config \<Rightarrow> string \<Rightarrow> bool" where
  "statementModified2 cfg statement \<longleftrightarrow>
     matches True (insertRegex2 (targetTableName cfg)) statement \<noteq> []
     \<and> list_ex (\<lambda>m. tupleModified2 (columnIndicesToAnonymize cfg) (parseValues (snd (snd m))))
          (tuples2 statement)"

fun quotedBody :: "string \<Rightarrow> bool" where
  \<comment> \<open>the text between the delimiters of a quoted literal: every quote in it is doubled\<close>
  "quotedBody [] \<longleftrightarrow> True"
| "quotedBody [c] \<longleftrightarrow> c \<noteq> quote"
| "quotedBody (c # c' # s) \<longleftrightarrow>
     (if c = quote then c' = quote \<and> quotedBody s else quotedBody (c' # s))"

fun depthAfter :: "bool \<Rightarrow> string \<Rightarrow> bool option" where
  \<comment> \<open>reading \<open>s\<close> with parentheses nested at most one level: \<open>inside\<close> says whether a
      parenthesis is open; \<open>None\<close> when \<open>s\<close> opens a second level or closes what is not open\<close>
  "depthAfter inside [] = Some inside"
| "depthAfter inside (c # s) =
     (if c = CHR ''('' then (if inside then None else depthAfter True s)
      else if c = CHR '')'' then (if inside then depthAfter False s else None)
      else depthAfter inside s)"

definition flatBalanced :: "string \<Rightarrow> bool" where
  \<comment> \<open>the parentheses of \<open>s\<close> are balanced pairs that are not nested\<close>
  "flatBalanced s \<longleftrightarrow> depthAfter False s = Some False"

inductive_set starL :: "string set \<Rightarrow> string set" for A :: "string set" where
  Nil: "[] \<in> starL A"
| Cons: "u \<in> A \<Longrightarrow> v \<in> starL A \<Longrightarrow> u @ v \<in> starL A"

fun lang :: "bool \<Rightarrow> regex \<Rightarrow> string set" where
  \<comment> \<open>the texts an expression matches, as a set: what the matcher is checked against\<close>
  "lang ic (Atom a) = {[c] | c. atomMatches ic a c}"
| "lang ic Eps = {[]}"
| "lang ic (Seq r1 r2) = {u @ v | u v. u \<in> lang ic r1 \<and> v \<in> lang ic r2}"
| "lang ic (Alt r1 r2) = lang ic r1 \<union> lang ic r2"
| "lang ic (Star r) = starL (lang ic r)"
| "lang ic (StarLazy r) = starL (lang ic r)"

definition plainChar :: "char \<Rightarrow> bool" where
  \<comment> \<open>what the class \<^verbatim>\<open>[^()]\<close> matches\<close>
  "plainChar c \<longleftrightarrow> c \<noteq> CHR ''('' \<and> c \<noteq> CHR '')''"

definition groupLang :: "string set" where
  "groupLang = {''('' @ a @ '')'' @ b | a b. list_all plainChar a \<and> list_all plainChar b}"

definition endsAtFirstSemicolon :: "string \<Rightarrow> bool" where
  \<comment> \<open>the text ends with a semicolon and has no other semicolon\<close>
  "endsAtFirstSemicolon s \<longleftrightarrow> s \<noteq> [] \<and> last s = CHR '';'' \<and> CHR '';'' \<notin> set (butlast s)"

section \<open>Properties of the tokenizer\<close>

lemma isWhiteSpace_simps [simp]:
  "\<not> isWhiteSpace quote" "\<not> isWhiteSpace CHR '',''" "\<not> isWhiteSpace CHR ''(''" "\<not> isWhiteSpace CHR '')''"
  "\<not> isWhiteSpace CHR '';''"
  "isWhiteSpace CHR '' ''"
  by (simp_all add: isWhiteSpace_def)

lemma trim_blank: "\<forall>c\<in>set s. isWhiteSpace c \<Longrightarrow> trim s = []"
proof -
  assume "\<forall>c\<in>set s. isWhiteSpace c"
  then have "dropWhile isWhiteSpace s = []" by (induction s) auto
  then show ?thesis by (simp add: trim_def trimStart_def trimEnd_def del: dropWhile_eq_Nil_conv)
qed

lemma trim_Nil [simp]: "trim [] = []"
  by (simp add: trim_def trimStart_def trimEnd_def)

lemma parseLoop_append:
  "t = [] \<or> hd t \<noteq> quote \<Longrightarrow>
   parseLoop (s @ t) v c q qc =
     (case parseLoop s v c q qc of (v', c', q', qc') \<Rightarrow> parseLoop t v' c' q' qc')"
proof (induction s v c q qc rule: parseLoop.induct)
  case (1 vs cur inQ quoteChar)
  then show ?case by simp
next
  case (2 c rest vs cur inQ quoteChar)
  then show ?case
    by (cases rest; cases t) (auto)
qed

lemma parseLoop_plain:
  "\<forall>x\<in>set s. x \<noteq> quote \<and> x \<noteq> CHR '','' \<Longrightarrow> parseLoop s v c q qc = (v, c @ s, q, qc)"
  by (induction s arbitrary: c) auto

lemma parseLoop_values:
  "parseLoop s v c q qc = (v', c', q', qc') \<Longrightarrow>
   length v \<le> length v' \<and> (length v' = length v \<longrightarrow> c' = c @ s)"
proof (induction s v c q qc arbitrary: v' c' q' qc' rule: parseLoop.induct)
  case (1 vs cur inQ quoteChar)
  then show ?case by simp
next
  case (2 x rest vs cur inQ quoteChar)
  show ?case
  proof (cases rest)
    case Nil
    with "2.prems" show ?thesis by (auto split: if_splits)
  next
    case (Cons y ys)
    show ?thesis
      using "2.IH" "2.prems" Cons
      by (auto split: if_splits)
  qed
qed

lemma parseValues_push:
  "parseLoop s [] [] False None = (vs, cur, q, qc) \<Longrightarrow> parseValues s = vs @ [trim cur]"
  using parseLoop_values [of s "[]" "[]" False None vs cur q qc]
  by (auto simp: parseValues_def)


text \<open>
  Claim C8, as the code has it. \<^verbatim>\<open>parseValues\<close> pushes a last field whenever the field is
  not blank, or a field was pushed before, or the whole input is blank: it always returns
  at least one field. An interior that is empty or only whitespace yields exactly one
  field, the empty string (not zero fields). An interior that ends with a comma outside
  quotes yields the fields of the text before that comma, followed by one empty field.
\<close>

theorem parseValues_blank_or_trailing_comma:
  "((\<forall>c \<in> set s. isWhiteSpace c) \<longrightarrow> parseValues s = [[]])
   \<and> (\<not> inQuotesAfter t \<longrightarrow> parseValues (t @ '','') = parseValues t @ [[]])"
proof (intro conjI impI)
  assume ws: "\<forall>c \<in> set s. isWhiteSpace c"
  then have "\<forall>x\<in>set s. x \<noteq> quote \<and> x \<noteq> CHR '',''" by auto
  then have "parseLoop s [] [] False None = ([], s, False, None)"
    using parseLoop_plain [of s "[]" "[]" False None] by simp
  then show "parseValues s = [[]]"
    using ws parseValues_push [of s "[]" s False None] by (simp add: trim_blank)
next
  assume nq: "\<not> inQuotesAfter t"
  obtain vs cur q qc where L: "parseLoop t [] [] False None = (vs, cur, q, qc)"
    by (cases "parseLoop t [] [] False None") auto
  with nq have q: "\<not> q" by (simp add: inQuotesAfter_def)
  have "parseLoop (t @ '','') [] [] False None = (vs @ [trim cur], [], False, qc)"
    using parseLoop_append [of "'',''" t "[]" "[]" False None] L q by simp
  then show "parseValues (t @ '','') = parseValues t @ [[]]"
    using L parseValues_push [of t vs cur q qc]
      parseValues_push [of "t @ '',''" "vs @ [trim cur]" "[]" False qc] by simp
qed

theorem parseValues_blank_or_trailing_comma_witness:
  "parseValues ''  '' = [[]]
   \<and> \<not> inQuotesAfter ''1, 2'' \<and> parseValues ''1, 2,'' = [''1'', ''2'', []]"
  using parseValues_blank_or_trailing_comma [of "''  ''" "''1, 2''"]
  by (simp add: inQuotesAfter_def parseValues_def trim_def trimStart_def trimEnd_def isWhiteSpace_def)

text \<open>
  The claim's first half fails on the empty interior: one empty field, not zero fields.
\<close>

theorem parseValues_empty_counterexample:
  "parseValues [] = [[]] \<and> length (parseValues []) \<noteq> 0"
  by (simp add: parseValues_def)

section \<open>Properties of the replacement token and of the anonymizer\<close>




lemma gen_shape:
  "generateRandomQuotedString ent defaultLength pos =
     ([quote] @ take 16 (toHex (map ent [pos ..< pos + 8])) @ [quote], pos + 8)"
  by (simp add: generateRandomQuotedString_def randomBytes_def defaultLength_def)

lemma safetyCheck_token: "isToken cfg v \<Longrightarrow> safetyCheck v"
  by (auto simp: isToken_def gen_shape safetyCheck_def startsWith_def)

lemma forEach1_length:
  "forEach1 cfg n idx vals m st = (vals', m', st') \<Longrightarrow> length vals' = length vals"
  by (induction idx arbitrary: vals m st) (auto split: if_splits prod.splits simp: Let_def)

lemma forEach1_untargeted:
  "forEach1 cfg n idx vals m st = (vals', m', st') \<Longrightarrow> j \<notin> set idx \<Longrightarrow> vals' ! j = vals ! j"
  by (induction idx arbitrary: vals m st) (auto split: if_splits prod.splits simp: Let_def)

lemma forEach1_frame:
  "forEach1 cfg n idx vals m st = (vals', m', st') \<Longrightarrow> \<not> safetyCheck (vals ! j) \<Longrightarrow>
   vals' ! j = vals ! j"
proof (induction idx arbitrary: vals m st)
  case Nil
  then show ?case by simp
next
  case (Cons i idx)
  show ?case
  proof (cases "i < length vals \<and> safetyCheck (vals ! i)")
    case True
    then have ij: "i \<noteq> j" using Cons.prems(2) by auto
    obtain tok p where g: "generateRandomQuotedString (entropy cfg) defaultLength (entropyPos st) = (tok, p)"
      by (cases "generateRandomQuotedString (entropy cfg) defaultLength (entropyPos st)") auto
    with True Cons.prems(1)
    have "forEach1 cfg n idx (vals[i := tok]) True (st\<lparr>entropyPos := p\<rparr>) = (vals', m', st')"
      by simp
    from Cons.IH [OF this] ij Cons.prems(2) show ?thesis by simp
  next
    case False
    with Cons.prems(1) obtain st0 where "forEach1 cfg n idx vals m st0 = (vals', m', st')"
      by (auto split: if_splits)
    from Cons.IH [OF this Cons.prems(2)] show ?thesis .
  qed
qed

lemma forEach1_replaced:
  "forEach1 cfg n idx vals m st = (vals', m', st') \<Longrightarrow> j < length vals \<Longrightarrow>
   isToken cfg (vals ! j) \<or> (j \<in> set idx \<and> safetyCheck (vals ! j)) \<Longrightarrow>
   isToken cfg (vals' ! j)"
proof (induction idx arbitrary: vals m st)
  case Nil
  then show ?case by simp
next
  case (Cons i idx)
  show ?case
  proof (cases "i < length vals \<and> safetyCheck (vals ! i)")
    case True
    obtain tok p where g: "generateRandomQuotedString (entropy cfg) defaultLength (entropyPos st) = (tok, p)"
      by (cases "generateRandomQuotedString (entropy cfg) defaultLength (entropyPos st)") auto
    then have tok: "isToken cfg tok" by (auto simp: isToken_def intro: exI [of _ "entropyPos st"])
    from g True Cons.prems(1)
    have run: "forEach1 cfg n idx (vals[i := tok]) True (st\<lparr>entropyPos := p\<rparr>) = (vals', m', st')"
      by simp
    have "isToken cfg (vals[i := tok] ! j) \<or> (j \<in> set idx \<and> safetyCheck (vals[i := tok] ! j))"
      using Cons.prems(2,3) True tok by (cases "i = j") auto
    with Cons.IH [OF run] Cons.prems(2) show ?thesis by simp
  next
    case False
    with Cons.prems(1) obtain st0 where run: "forEach1 cfg n idx vals m st0 = (vals', m', st')"
      by (auto split: if_splits)
    have "isToken cfg (vals ! j) \<or> (j \<in> set idx \<and> safetyCheck (vals ! j))"
      using Cons.prems(2,3) False safetyCheck_token by auto
    from Cons.IH [OF run Cons.prems(2) this] show ?thesis .
  qed
qed

lemma forEach1_flag:
  "forEach1 cfg n idx vals m st = (vals', m', st') \<Longrightarrow>
   m' = (m \<or> list_ex (\<lambda>i. i < length vals \<and> safetyCheck (vals ! i)) idx)"
proof (induction idx arbitrary: vals m st)
  case Nil
  then show ?case by simp
next
  case (Cons i idx)
  show ?case
  proof (cases "i < length vals \<and> safetyCheck (vals ! i)")
    case True
    obtain tok p where g: "generateRandomQuotedString (entropy cfg) defaultLength (entropyPos st) = (tok, p)"
      by (cases "generateRandomQuotedString (entropy cfg) defaultLength (entropyPos st)") auto
    from g True Cons.prems(1)
    have run: "forEach1 cfg n idx (vals[i := tok]) True (st\<lparr>entropyPos := p\<rparr>) = (vals', m', st')"
      by simp
    from Cons.IH [OF run] True show ?thesis by simp
  next
    case False
    with Cons.prems(1) obtain st0 where run: "forEach1 cfg n idx vals m st0 = (vals', m', st')"
      by (auto split: if_splits)
    from Cons.IH [OF run] False show ?thesis by auto
  qed
qed

lemma forEach2_length:
  "forEach2 cfg idx vals m st = (vals', m', st') \<Longrightarrow> length vals' = length vals"
  by (induction idx arbitrary: vals m st) (auto split: if_splits prod.splits)

lemma forEach2_untargeted:
  "forEach2 cfg idx vals m st = (vals', m', st') \<Longrightarrow> j \<notin> set idx \<Longrightarrow> vals' ! j = vals ! j"
  by (induction idx arbitrary: vals m st) (auto split: if_splits prod.splits)

lemma forEach2_flag:
  "forEach2 cfg idx vals m st = (vals', m', st') \<Longrightarrow>
   m' = (m \<or> list_ex (\<lambda>i. i < length vals) idx)"
  by (induction idx arbitrary: vals m st) (auto split: if_splits prod.splits)

lemma forEach2_replaced:
  "forEach2 cfg idx vals m st = (vals', m', st') \<Longrightarrow> j < length vals \<Longrightarrow>
   isToken cfg (vals ! j) \<or> j \<in> set idx \<Longrightarrow> isToken cfg (vals' ! j)"
proof (induction idx arbitrary: vals m st)
  case Nil
  then show ?case by simp
next
  case (Cons i idx)
  show ?case
  proof (cases "i < length vals")
    case True
    obtain tok p where g: "generateRandomQuotedString (entropy cfg) defaultLength (entropyPos st) = (tok, p)"
      by (cases "generateRandomQuotedString (entropy cfg) defaultLength (entropyPos st)") auto
    then have tok: "isToken cfg tok" by (auto simp: isToken_def intro: exI [of _ "entropyPos st"])
    from g True Cons.prems(1)
    have run: "forEach2 cfg idx (vals[i := tok]) True (st\<lparr>entropyPos := p\<rparr>) = (vals', m', st')"
      by simp
    have "isToken cfg (vals[i := tok] ! j) \<or> j \<in> set idx"
      using Cons.prems(2,3) True tok by (cases "i = j") auto
    with Cons.IH [OF run] Cons.prems(2) show ?thesis by simp
  next
    case False
    with Cons.prems(1) have run: "forEach2 cfg idx vals m st = (vals', m', st')"
      by (auto split: if_splits)
    have "isToken cfg (vals ! j) \<or> j \<in> set idx"
      using Cons.prems(2,3) False by auto
    from Cons.IH [OF run Cons.prems(2) this] show ?thesis .
  qed
qed

lemma maxIndex_less: "maxIndex cols < int n \<longleftrightarrow> list_all (\<lambda>i. i < n) cols"
proof (cases cols)
  case Nil
  then show ?thesis by (simp add: maxIndex_def)
next
  case (Cons c cs)
  have "fold max cols 0 = Max (set (0 # cols))"
    by (rule Max.set_eq_fold [symmetric])
  moreover have "Max (set (0 # cols)) < n \<longleftrightarrow> (\<forall>a \<in> set (0 # cols). a < n)"
    by (rule Max_less_iff) simp_all
  ultimately show ?thesis
    using Cons by (auto simp: maxIndex_def list_all_iff)
qed

lemma trim_id: "s \<noteq> [] \<Longrightarrow> \<not> isWhiteSpace (hd s) \<Longrightarrow> \<not> isWhiteSpace (last s) \<Longrightarrow> trim s = s"
proof -
  assume ne: "s \<noteq> []" and h: "\<not> isWhiteSpace (hd s)" and l: "\<not> isWhiteSpace (last s)"
  from ne h have a: "dropWhile isWhiteSpace s = s" by (cases s) auto
  from ne l have "dropWhile isWhiteSpace (rev s) = rev s"
    by (cases "rev s") (auto simp: last_rev [symmetric] simp del: last_rev)
  with a show ?thesis by (simp add: trim_def trimStart_def trimEnd_def)
qed


lemma parseLoop_open:
  "parseLoop (quote # t) v c False qc = parseLoop t v (c @ [quote]) True (Some quote)"
  by simp






lemma forEach1_each:
  assumes "forEach1 cfg n idx vals m st = (vals', m', st')" and "j < length vals"
  shows "vals' ! j = vals ! j \<or> isToken cfg (vals' ! j)"
proof (cases "j \<in> set idx \<and> safetyCheck (vals ! j)")
  case True
  then show ?thesis using forEach1_replaced [OF assms] by simp
next
  case False
  then show ?thesis
    using forEach1_untargeted [OF assms(1), of j] forEach1_frame [OF assms(1), of j] by auto
qed

lemma forEach2_each:
  assumes "forEach2 cfg idx vals m st = (vals', m', st')" and "j < length vals"
  shows "vals' ! j = vals ! j \<or> isToken cfg (vals' ! j)"
proof (cases "j \<in> set idx")
  case True
  then show ?thesis using forEach2_replaced [OF assms] by simp
next
  case False
  then show ?thesis using forEach2_untargeted [OF assms(1), of j] by simp
qed

lemma list_ex_in_range:
  "list_all (\<lambda>i. i < n) cols \<Longrightarrow> list_ex (\<lambda>i. i < n \<and> P i) cols = list_ex P cols"
  by (induction cols) auto

lemma list_ex_all_range: "list_all (\<lambda>i. i < n) cols \<Longrightarrow> list_ex (\<lambda>i. i < (n::nat)) cols = (cols \<noteq> [])"
  by (cases cols) auto

lemma valueSet1_short:
  "maxIndex (columnIndicesToAnonymize cfg) \<ge> int (length (parseValues (trim g))) \<Longrightarrow>
   valueSet1 cfg n full g st =
     (full, False,
      consoleWarn (BoundsMismatch n (length (parseValues (trim g)))
                     (maxIndex (columnIndicesToAnonymize cfg))) st)"
  by (simp add: valueSet1_def Let_def)

lemma valueSet2_short:
  "maxIndex (columnIndicesToAnonymize cfg) \<ge> int (length (parseValues g)) \<Longrightarrow>
   valueSet2 cfg full g st =
     (full, False,
      consoleWarn (BoundsMismatch (processedStatements st) (length (parseValues g))
                     (maxIndex (columnIndicesToAnonymize cfg))) st)"
  by (simp add: valueSet2_def Let_def)

lemma valueSet1_cases:
  fixes st :: "'a run_scheme" and cfg :: config and g :: string
  defines "cols \<equiv> columnIndicesToAnonymize cfg"
  defines "vals \<equiv> parseValues (trim g)"
  shows "(tupleModified1 cols vals \<longrightarrow>
           (\<exists>vals' st'. valueSet1 cfg n full g st = (''( '' @ join '', '' vals' @ '' )'', True, st')
              \<and> length vals' = length vals
              \<and> (\<forall>j<length vals. vals' ! j = vals ! j \<or> isToken cfg (vals' ! j))
              \<and> (\<forall>j<length vals. j \<notin> set cols \<or> \<not> safetyCheck (vals ! j) \<longrightarrow> vals' ! j = vals ! j)
              \<and> (\<forall>j<length vals. j \<in> set cols \<and> safetyCheck (vals ! j) \<longrightarrow> isToken cfg (vals' ! j))))
       \<and> (\<not> tupleModified1 cols vals \<longrightarrow>
           fst (valueSet1 cfg n full g st) = full \<and> \<not> fst (snd (valueSet1 cfg n full g st)))"
proof (cases "maxIndex cols < int (length vals)")
  case False
  then show ?thesis
    using valueSet1_short [of g cfg n full st]
    by (simp add: tupleModified1_def cols_def vals_def)
next
  case True
  then have inr: "list_all (\<lambda>i. i < length vals) cols" by (simp add: maxIndex_less)
  obtain vals' m' st' where fe: "forEach1 cfg n cols vals False st = (vals', m', st')"
    by (cases "forEach1 cfg n cols vals False st") auto
  have flag: "m' = list_ex (\<lambda>i. safetyCheck (vals ! i)) cols"
    using forEach1_flag [OF fe] list_ex_in_range [OF inr] by simp
  have vs: "valueSet1 cfg n full g st =
      (if m' then (''( '' @ join '', '' vals' @ '' )'', True, st') else (full, False, st'))"
    using True fe by (simp add: valueSet1_def Let_def cols_def vals_def)
  show ?thesis
  proof (cases m')
    case False
    with vs flag True show ?thesis by (simp add: tupleModified1_def)
  next
    case m: True
    have "length vals' = length vals" using fe by (rule forEach1_length)
    moreover have "\<forall>j<length vals. vals' ! j = vals ! j \<or> isToken cfg (vals' ! j)"
      using forEach1_each [OF fe] by blast
    moreover have "\<forall>j<length vals. j \<notin> set cols \<or> \<not> safetyCheck (vals ! j) \<longrightarrow> vals' ! j = vals ! j"
      using forEach1_untargeted [OF fe] forEach1_frame [OF fe] by blast
    moreover have "\<forall>j<length vals. j \<in> set cols \<and> safetyCheck (vals ! j) \<longrightarrow> isToken cfg (vals' ! j)"
      using forEach1_replaced [OF fe] by blast
    ultimately show ?thesis using vs m flag True by (auto simp: tupleModified1_def)
  qed
qed

lemma valueSet2_cases:
  fixes st :: "'a run_scheme" and cfg :: config and g :: string
  defines "cols \<equiv> columnIndicesToAnonymize cfg"
  defines "vals \<equiv> parseValues g"
  shows "(tupleModified2 cols vals \<longrightarrow>
           (\<exists>vals' st'. valueSet2 cfg full g st = (''('' @ join '', '' vals' @ '')'', True, st')
              \<and> length vals' = length vals
              \<and> (\<forall>j<length vals. vals' ! j = vals ! j \<or> isToken cfg (vals' ! j))
              \<and> (\<forall>j<length vals. j \<notin> set cols \<longrightarrow> vals' ! j = vals ! j)
              \<and> (\<forall>j<length vals. j \<in> set cols \<longrightarrow> isToken cfg (vals' ! j))))
       \<and> (\<not> tupleModified2 cols vals \<longrightarrow>
           fst (valueSet2 cfg full g st) = full \<and> \<not> fst (snd (valueSet2 cfg full g st)))"
proof (cases "maxIndex cols < int (length vals)")
  case False
  then show ?thesis
    using valueSet2_short [of g cfg full st]
    by (simp add: tupleModified2_def cols_def vals_def)
next
  case True
  then have inr: "list_all (\<lambda>i. i < length vals) cols" by (simp add: maxIndex_less)
  obtain vals' m' st' where fe: "forEach2 cfg cols vals False st = (vals', m', st')"
    by (cases "forEach2 cfg cols vals False st") auto
  have flag: "m' = (cols \<noteq> [])"
    using forEach2_flag [OF fe] list_ex_all_range [OF inr] by simp
  have vs: "valueSet2 cfg full g st =
      (if m' then (''('' @ join '', '' vals' @ '')'', True, st') else (full, False, st'))"
    using True fe by (simp add: valueSet2_def Let_def cols_def vals_def)
  show ?thesis
  proof (cases m')
    case False
    with vs flag True show ?thesis by (simp add: tupleModified2_def)
  next
    case m: True
    have "length vals' = length vals" using fe by (rule forEach2_length)
    moreover have "\<forall>j<length vals. vals' ! j = vals ! j \<or> isToken cfg (vals' ! j)"
      using forEach2_each [OF fe] by blast
    moreover have "\<forall>j<length vals. j \<notin> set cols \<longrightarrow> vals' ! j = vals ! j"
      using forEach2_untargeted [OF fe] by blast
    moreover have "\<forall>j<length vals. j \<in> set cols \<longrightarrow> isToken cfg (vals' ! j)"
      using forEach2_replaced [OF fe] by blast
    ultimately show ?thesis using vs m flag True by (auto simp: tupleModified2_def)
  qed
qed









lemma valueSetLoop1_Cons:
  "valueSetLoop1 cfg n (x # ms) st =
     (let r = valueSet1 cfg n (fst (snd x)) (snd (snd x)) st;
          r' = valueSetLoop1 cfg n ms (snd (snd r))
      in (fst r # fst r', fst (snd r) \<or> fst (snd r'), snd (snd r')))"
  by (cases x) (simp add: split_beta Let_def)

lemma valueSetLoop2_Cons:
  "valueSetLoop2 cfg (x # ms) st =
     (let r = valueSet2 cfg (fst (snd x)) (snd (snd x)) st;
          r' = valueSetLoop2 cfg ms (snd (snd r))
      in (fst r # fst r', fst (snd r) \<or> fst (snd r'), snd (snd r')))"
  by (cases x) (simp add: split_beta Let_def)



lemma valueSetLoop1_length: "length (fst (valueSetLoop1 cfg n ms st)) = length ms"
  by (induction ms arbitrary: st)
     (simp_all add: split_beta valueSetLoop1_Cons valueSetLoop2_Cons Let_def)

lemma valueSetLoop2_length: "length (fst (valueSetLoop2 cfg ms st)) = length ms"
  by (induction ms arbitrary: st)
     (simp_all add: split_beta valueSetLoop1_Cons valueSetLoop2_Cons Let_def)





lemma reconstruct_tail: "reconstruct ms outs tail = reconstruct ms outs [] @ tail"
  by (induction ms outs tail rule: reconstruct.induct) auto


text \<open>
  Claim C9, as the code has it. When a field of the tuple is replaced, the second variant
  pushes an opening parenthesis, the fields joined by a comma and a space, and a closing
  parenthesis; the first variant puts one more space after the opening and before the
  closing parenthesis. The fields are those of the tokenizer, each one kept or replaced
  by a token. When no field is replaced, both variants push the original text of the
  match.
\<close>

theorem emitted_tuple_text:
  fixes st :: "'a run_scheme" and cfg :: config
  defines "cols \<equiv> columnIndicesToAnonymize cfg"
  shows
    "(tupleModified1 cols (parseValues (trim g1)) \<longrightarrow>
        (\<exists>vals'. fst (valueSet1 cfg n full g1 st) = ''( '' @ join '', '' vals' @ '' )''
           \<and> length vals' = length (parseValues (trim g1))
           \<and> (\<forall>j < length vals'. vals' ! j = parseValues (trim g1) ! j \<or> isToken cfg (vals' ! j))))
     \<and> (\<not> tupleModified1 cols (parseValues (trim g1)) \<longrightarrow> fst (valueSet1 cfg n full g1 st) = full)
     \<and> (tupleModified2 cols (parseValues g2) \<longrightarrow>
        (\<exists>vals'. fst (valueSet2 cfg full g2 st) = ''('' @ join '', '' vals' @ '')''
           \<and> length vals' = length (parseValues g2)
           \<and> (\<forall>j < length vals'. vals' ! j = parseValues g2 ! j \<or> isToken cfg (vals' ! j))))
     \<and> (\<not> tupleModified2 cols (parseValues g2) \<longrightarrow> fst (valueSet2 cfg full g2 st) = full)"
proof (intro conjI impI)
  assume "tupleModified1 cols (parseValues (trim g1))"
  with valueSet1_cases [of cfg g1 n full st] obtain vals' st' where
    "valueSet1 cfg n full g1 st = (''( '' @ join '', '' vals' @ '' )'', True, st')"
    "length vals' = length (parseValues (trim g1))"
    "\<forall>j<length (parseValues (trim g1)). vals' ! j = parseValues (trim g1) ! j \<or> isToken cfg (vals' ! j)"
    unfolding cols_def by blast
  then show "\<exists>vals'. fst (valueSet1 cfg n full g1 st) = ''( '' @ join '', '' vals' @ '' )''
           \<and> length vals' = length (parseValues (trim g1))
           \<and> (\<forall>j < length vals'. vals' ! j = parseValues (trim g1) ! j \<or> isToken cfg (vals' ! j))"
    by (intro exI [of _ vals']) simp
next
  assume "\<not> tupleModified1 cols (parseValues (trim g1))"
  with valueSet1_cases [of cfg g1 n full st]
  show "fst (valueSet1 cfg n full g1 st) = full"
    unfolding cols_def by blast
next
  assume "tupleModified2 cols (parseValues g2)"
  with valueSet2_cases [of cfg g2 full st] obtain vals' st' where
    "valueSet2 cfg full g2 st = (''('' @ join '', '' vals' @ '')'', True, st')"
    "length vals' = length (parseValues g2)"
    "\<forall>j<length (parseValues g2). vals' ! j = parseValues g2 ! j \<or> isToken cfg (vals' ! j)"
    unfolding cols_def by blast
  then show "\<exists>vals'. fst (valueSet2 cfg full g2 st) = ''('' @ join '', '' vals' @ '')''
           \<and> length vals' = length (parseValues g2)
           \<and> (\<forall>j < length vals'. vals' ! j = parseValues g2 ! j \<or> isToken cfg (vals' ! j))"
    by (intro exI [of _ vals']) simp
next
  assume "\<not> tupleModified2 cols (parseValues g2)"
  with valueSet2_cases [of cfg g2 full st]
  show "fst (valueSet2 cfg full g2 st) = full"
    unfolding cols_def by blast
qed

theorem emitted_tuple_text_witness:
  "tupleModified1 [1] (parseValues (trim ''7, NULL''))
   \<and> (\<exists>vals'. fst (valueSet1 (exampleConfig ''t'' [1]) 3 ''(7,NULL)'' ''7, NULL'' run0)
                 = ''( '' @ join '', '' vals' @ '' )'' \<and> length vals' = 2)
   \<and> \<not> tupleModified1 [1] (parseValues (trim ''7, 42''))
   \<and> fst (valueSet1 (exampleConfig ''t'' [1]) 3 ''(7,42)'' ''7, 42'' run0) = ''(7,42)''
   \<and> tupleModified2 [1] (parseValues ''7, 42'')
   \<and> (\<exists>vals'. fst (valueSet2 (exampleConfig ''t'' [1]) ''(7,42)'' ''7, 42'' run0)
                 = ''('' @ join '', '' vals' @ '')'' \<and> length vals' = 2)
   \<and> \<not> tupleModified2 [1] (parseValues ''7'')
   \<and> fst (valueSet2 (exampleConfig ''t'' [1]) ''( 7 )'' ''7'' run0) = ''( 7 )''"
proof -
  have c: "columnIndicesToAnonymize (exampleConfig ''t'' [1]) = [1]"
    by (simp add: exampleConfig_def)
  have h1: "tupleModified1 [1] (parseValues (trim ''7, NULL''))" by code_simp
  have h2: "\<not> tupleModified1 [1] (parseValues (trim ''7, 42''))" by code_simp
  have h3: "tupleModified2 [1] (parseValues ''7, 42'')" by code_simp
  have h4: "\<not> tupleModified2 [1] (parseValues ''7'')" by code_simp
  have l1: "length (parseValues (trim ''7, NULL'')) = 2" by code_simp
  have l3: "length (parseValues ''7, 42'') = 2" by code_simp
  note A = emitted_tuple_text [where cfg = "exampleConfig ''t'' [1]" and ?g1.0 = "''7, NULL''"
      and ?g2.0 = "''7, 42''" and n = 3 and full = "''(7,NULL)''" and st = run0, unfolded c]
  note B = emitted_tuple_text [where cfg = "exampleConfig ''t'' [1]" and ?g1.0 = "''7, 42''"
      and ?g2.0 = "''7, 42''" and n = 3 and full = "''(7,42)''" and st = run0, unfolded c]
  note C = emitted_tuple_text [where cfg = "exampleConfig ''t'' [1]" and ?g1.0 = "''7, 42''"
      and ?g2.0 = "''7''" and n = 3 and full = "''( 7 )''" and st = run0, unfolded c]
  from A h1 l1 have a: "\<exists>vals'. fst (valueSet1 (exampleConfig ''t'' [1]) 3 ''(7,NULL)'' ''7, NULL'' run0)
                 = ''( '' @ join '', '' vals' @ '' )'' \<and> length vals' = 2"
    by metis
  from B h2 have b: "fst (valueSet1 (exampleConfig ''t'' [1]) 3 ''(7,42)'' ''7, 42'' run0) = ''(7,42)''"
    by blast
  from B h3 l3 have c2: "\<exists>vals'. fst (valueSet2 (exampleConfig ''t'' [1]) ''(7,42)'' ''7, 42'' run0)
                 = ''('' @ join '', '' vals' @ '')'' \<and> length vals' = 2"
    by metis
  from C h4 have d: "fst (valueSet2 (exampleConfig ''t'' [1]) ''( 7 )'' ''7'' run0) = ''( 7 )''"
    by blast
  show ?thesis by (intro conjI h1 a h2 b h3 c2 h4 d)
qed

text \<open>
  The claim's first half fails in the first variant: the text it pushes for a modified
  tuple has a space after the opening parenthesis and before the closing one.
\<close>

theorem emitted_tuple_text_counterexample:
  "fst (valueSet1 (exampleConfig ''t'' [1]) 3 ''(7,NULL)'' ''7, NULL'' run0)
     = ''( 7, '' @ quote # ''031425364758697a'' @ [quote] @ '' )''
   \<and> fst (valueSet1 (exampleConfig ''t'' [1]) 3 ''(7,NULL)'' ''7, NULL'' run0)
     \<noteq> ''('' @ join '', '' [''7'', quote # ''031425364758697a'' @ [quote]] @ '')''"
  by code_simp

lemma forEach1_keeps:
  fixes f :: "'a run_scheme \<Rightarrow> 'b"
  assumes e: "\<And>s p. f (s\<lparr>entropyPos := p\<rparr>) = f s" and d: "\<And>s x. f (s\<lparr>diagnostics := x\<rparr>) = f s"
  shows "f (snd (snd (forEach1 cfg n idx vals m st))) = f st"
proof (induction idx arbitrary: vals m st)
  case Nil
  then show ?case by simp
next
  case (Cons i idx)
  show ?case
  proof (cases "i < length vals")
    case False
    with Cons.IH [where vals = vals and m = m
        and st = "consoleWarn (IndexOutOfBounds n i (length vals)) st"]
    show ?thesis by (simp add: consoleWarn_def d)
  next
    case inr: True
    show ?thesis
    proof (cases "safetyCheck (vals ! i)")
      case False
      with inr Cons.IH [where vals = vals and m = m and st = st] show ?thesis by simp
    next
      case True
      obtain tok p where g: "generateRandomQuotedString (entropy cfg) defaultLength (entropyPos st) = (tok, p)"
        by (cases "generateRandomQuotedString (entropy cfg) defaultLength (entropyPos st)") auto
      from Cons.IH [where vals = "vals[i := tok]" and m = True and st = "st\<lparr>entropyPos := p\<rparr>"]
        inr True g
      show ?thesis by (simp add: e)
    qed
  qed
qed

lemma forEach2_keeps:
  fixes f :: "'a run_scheme \<Rightarrow> 'b"
  assumes e: "\<And>s p. f (s\<lparr>entropyPos := p\<rparr>) = f s"
  shows "f (snd (snd (forEach2 cfg idx vals m st))) = f st"
proof (induction idx arbitrary: vals m st)
  case Nil
  then show ?case by simp
next
  case (Cons i idx)
  show ?case
  proof (cases "i < length vals")
    case False
    with Cons.IH [where vals = vals and m = m and st = st] show ?thesis by simp
  next
    case True
    obtain tok p where g: "generateRandomQuotedString (entropy cfg) defaultLength (entropyPos st) = (tok, p)"
      by (cases "generateRandomQuotedString (entropy cfg) defaultLength (entropyPos st)") auto
    from Cons.IH [where vals = "vals[i := tok]" and m = True and st = "st\<lparr>entropyPos := p\<rparr>"]
      True g
    show ?thesis by (simp add: e)
  qed
qed

lemma valueSet1_keeps:
  fixes f :: "'a run_scheme \<Rightarrow> 'b"
  assumes e: "\<And>s p. f (s\<lparr>entropyPos := p\<rparr>) = f s" and d: "\<And>s x. f (s\<lparr>diagnostics := x\<rparr>) = f s"
  shows "f (snd (snd (valueSet1 cfg n full g st))) = f st"
  using forEach1_keeps [of f cfg n "columnIndicesToAnonymize cfg" "parseValues (trim g)" False st, OF e d]
  by (simp add: valueSet1_def Let_def split_beta consoleWarn_def d)

lemma valueSet2_keeps:
  fixes f :: "'a run_scheme \<Rightarrow> 'b"
  assumes e: "\<And>s p. f (s\<lparr>entropyPos := p\<rparr>) = f s" and d: "\<And>s x. f (s\<lparr>diagnostics := x\<rparr>) = f s"
  shows "f (snd (snd (valueSet2 cfg full g st))) = f st"
  using forEach2_keeps [of f cfg "columnIndicesToAnonymize cfg" "parseValues g" False st, OF e]
  by (simp add: valueSet2_def Let_def split_beta consoleWarn_def d)

lemma valueSetLoop1_keeps:
  fixes f :: "'a run_scheme \<Rightarrow> 'b"
  assumes e: "\<And>s p. f (s\<lparr>entropyPos := p\<rparr>) = f s" and d: "\<And>s x. f (s\<lparr>diagnostics := x\<rparr>) = f s"
  shows "f (snd (snd (valueSetLoop1 cfg n ms st))) = f st"
proof (induction ms arbitrary: st)
  case Nil
  then show ?case by simp
next
  case (Cons x ms)
  show ?case
    using Cons.IH [where st = "snd (snd (valueSet1 cfg n (fst (snd x)) (snd (snd x)) st))"]
      valueSet1_keeps [of f cfg n "fst (snd x)" "snd (snd x)" st, OF e d]
    by (simp add: valueSetLoop1_Cons Let_def)
qed

lemma valueSetLoop2_keeps:
  fixes f :: "'a run_scheme \<Rightarrow> 'b"
  assumes e: "\<And>s p. f (s\<lparr>entropyPos := p\<rparr>) = f s" and d: "\<And>s x. f (s\<lparr>diagnostics := x\<rparr>) = f s"
  shows "f (snd (snd (valueSetLoop2 cfg ms st))) = f st"
proof (induction ms arbitrary: st)
  case Nil
  then show ?case by simp
next
  case (Cons x ms)
  show ?case
    using Cons.IH [where st = "snd (snd (valueSet2 cfg (fst (snd x)) (snd (snd x)) st))"]
      valueSet2_keeps [of f cfg "fst (snd x)" "snd (snd x)" st, OF e d]
    by (simp add: valueSetLoop2_Cons Let_def)
qed

lemma valueSet1_flag:
  "fst (snd (valueSet1 cfg n full g st))
     = tupleModified1 (columnIndicesToAnonymize cfg) (parseValues (trim g))"
  using valueSet1_cases [of cfg g n full st]
  by (cases "tupleModified1 (columnIndicesToAnonymize cfg) (parseValues (trim g))") auto

lemma valueSet2_flag:
  "fst (snd (valueSet2 cfg full g st))
     = tupleModified2 (columnIndicesToAnonymize cfg) (parseValues g)"
  using valueSet2_cases [of cfg g full st]
  by (cases "tupleModified2 (columnIndicesToAnonymize cfg) (parseValues g)") auto

lemma valueSetLoop1_flag:
  "fst (snd (valueSetLoop1 cfg n ms st))
     = list_ex (\<lambda>m. tupleModified1 (columnIndicesToAnonymize cfg) (parseValues (trim (snd (snd m))))) ms"
  by (induction ms arbitrary: st) (simp_all add: valueSetLoop1_Cons Let_def valueSet1_flag)

lemma valueSetLoop2_flag:
  "fst (snd (valueSetLoop2 cfg ms st))
     = list_ex (\<lambda>m. tupleModified2 (columnIndicesToAnonymize cfg) (parseValues (snd (snd m)))) ms"
  by (induction ms arbitrary: st) (simp_all add: valueSetLoop2_Cons Let_def valueSet2_flag)

lemma processStatement1_unmodified:
  fixes st :: "'a run_scheme"
  assumes "\<not> statementModified1 cfg statement"
  shows "written (processStatement1 cfg statement n st) = written st @ [statement]"
proof (cases "search True (insertRegex1 (targetTableName cfg)) statement = None")
  case True
  then show ?thesis by (simp add: processStatement1_def Let_def writerWrite_def)
next
  case matched: False
  show ?thesis
  proof (cases "search True valuesRegex1 statement")
    case None
    with matched show ?thesis by (simp add: processStatement1_def Let_def writerWrite_def)
  next
    case (Some i)
    let ?st = "st\<lparr>processedStatements := processedStatements st + 1\<rparr>"
    obtain ms tail where ex: "execAll False valueSetRegex1 (drop i statement) = (ms, tail)"
      by (cases "execAll False valueSetRegex1 (drop i statement)") auto
    then have ms: "tuples1 statement = ms" using Some by (simp add: tuples1_def)
    obtain nvs om st1 where loop: "valueSetLoop1 cfg n ms ?st = (nvs, om, st1)"
      by (cases "valueSetLoop1 cfg n ms ?st") auto
    have "om = fst (snd (valueSetLoop1 cfg n ms ?st))" using loop by simp
    then have "\<not> om"
      using assms matched ms by (simp add: valueSetLoop1_flag statementModified1_def)
    moreover have "written st1 = written ?st"
      using valueSetLoop1_keeps [of written cfg n ms ?st] loop by simp
    ultimately show ?thesis
      using matched Some ex loop by (simp add: processStatement1_def Let_def writerWrite_def)
  qed
qed

lemma processStatement2_unmodified:
  fixes st :: "'a run_scheme"
  assumes "\<not> statementModified2 cfg statement"
  shows "written (processStatement2 cfg statement st) = written st @ [statement @ ''\<newline>'']"
proof (cases "matches True (insertRegex2 (targetTableName cfg)) statement = []")
  case True
  then show ?thesis by (simp add: processStatement2_def Let_def writerWrite_def)
next
  case matched: False
  show ?thesis
  proof (cases "indexOf (toUpperCase statement) ''VALUES'' = - 1")
    case True
    with matched show ?thesis
      by (simp add: processStatement2_def Let_def writerWrite_def consoleWarn_def)
  next
    case found: False
    let ?st = "st\<lparr>processedStatements := processedStatements st + 1\<rparr>"
    let ?part = "drop (nat (indexOf (toUpperCase statement) ''VALUES'') + length ''VALUES'') statement"
    obtain ms tail where ex: "execAll False valueSetRegex2 ?part = (ms, tail)"
      by (cases "execAll False valueSetRegex2 ?part") auto
    then have ms: "tuples2 statement = ms" using found by (simp add: tuples2_def Let_def)
    obtain nvs om st1 where loop: "valueSetLoop2 cfg ms ?st = (nvs, om, st1)"
      by (cases "valueSetLoop2 cfg ms ?st") auto
    have "om = fst (snd (valueSetLoop2 cfg ms ?st))" using loop by simp
    then have "\<not> om"
      using assms matched ms by (simp add: valueSetLoop2_flag statementModified2_def)
    moreover have "written st1 = written ?st"
      using valueSetLoop2_keeps [of written cfg ms ?st] loop by simp
    ultimately show ?thesis
      using matched found ex loop by (simp add: processStatement2_def Let_def writerWrite_def)
  qed
qed

text \<open>
  Claim C2 holds in the first variant: for a statement in which no field is modified (it
  does not match the target signature, or it matches and no field of any of its tuples is
  replaced), the text written is the statement text. The second variant breaks it: every
  write of an unmodified statement is \<^verbatim>\<open>writer.write(statement + '\n')\<close>, so the text
  written is the statement text and one more newline, never the statement text.
\<close>

theorem unmodified_statement_output:
  fixes st1 :: "'a run_scheme" and st2 :: "'b run_scheme"
  shows
    "(\<not> statementModified1 cfg statement \<longrightarrow>
        written (processStatement1 cfg statement n st1) = written st1 @ [statement])
     \<and> (\<not> statementModified2 cfg statement \<longrightarrow>
        written (processStatement2 cfg statement st2) = written st2 @ [statement @ ''\<newline>'']
        \<and> written (processStatement2 cfg statement st2) \<noteq> written st2 @ [statement])"
  using processStatement1_unmodified [of cfg statement n st1]
    processStatement2_unmodified [of cfg statement st2]
  by simp

theorem unmodified_statement_output_witness:
  "\<not> statementModified1 (exampleConfig ''t'' [1]) ''SELECT 1;\<newline>''
   \<and> written (processStatement1 (exampleConfig ''t'' [1]) ''SELECT 1;\<newline>'' 1 run0) = [''SELECT 1;\<newline>'']
   \<and> \<not> statementModified1 (exampleConfig ''t'' [1]) ''INSERT INTO t VALUES (7, 42);\<newline>''
   \<and> written (processStatement1 (exampleConfig ''t'' [1]) ''INSERT INTO t VALUES (7, 42);\<newline>'' 1 run0)
       = [''INSERT INTO t VALUES (7, 42);\<newline>'']
   \<and> \<not> statementModified2 (exampleConfig ''t'' [1]) ''SELECT 1;''
   \<and> written (processStatement2 (exampleConfig ''t'' [1]) ''SELECT 1;'' run0) = [''SELECT 1;\<newline>'']
   \<and> \<not> statementModified2 (exampleConfig ''t'' [1]) ''INSERT INTO t VALUES (7);''
   \<and> written (processStatement2 (exampleConfig ''t'' [1]) ''INSERT INTO t VALUES (7);'' run0)
       = [''INSERT INTO t VALUES (7);\<newline>'']"
proof -
  have w0: "written run0 = []" by (simp add: run0_def)
  have h1: "\<not> statementModified1 (exampleConfig ''t'' [1]) ''SELECT 1;\<newline>''" by code_simp
  have h2: "\<not> statementModified1 (exampleConfig ''t'' [1]) ''INSERT INTO t VALUES (7, 42);\<newline>''"
    by code_simp
  have h3: "\<not> statementModified2 (exampleConfig ''t'' [1]) ''SELECT 1;''" by code_simp
  have h4: "\<not> statementModified2 (exampleConfig ''t'' [1]) ''INSERT INTO t VALUES (7);''"
    by code_simp
  note T = unmodified_statement_output [where cfg = "exampleConfig ''t'' [1]" and ?st1.0 = run0
      and ?st2.0 = run0 and n = 1]
  from T [where statement = "''SELECT 1;\<newline>''"] h1
  have a: "written (processStatement1 (exampleConfig ''t'' [1]) ''SELECT 1;\<newline>'' 1 run0) = [''SELECT 1;\<newline>'']"
    by (simp add: w0)
  from T [where statement = "''INSERT INTO t VALUES (7, 42);\<newline>''"] h2
  have b: "written (processStatement1 (exampleConfig ''t'' [1]) ''INSERT INTO t VALUES (7, 42);\<newline>'' 1 run0)
       = [''INSERT INTO t VALUES (7, 42);\<newline>'']"
    by (simp add: w0)
  from T [where statement = "''SELECT 1;''"] h3
  have c: "written (processStatement2 (exampleConfig ''t'' [1]) ''SELECT 1;'' run0) = [''SELECT 1;\<newline>'']"
    by (simp add: w0)
  from T [where statement = "''INSERT INTO t VALUES (7);''"] h4
  have d: "written (processStatement2 (exampleConfig ''t'' [1]) ''INSERT INTO t VALUES (7);'' run0)
       = [''INSERT INTO t VALUES (7);\<newline>'']"
    by (simp add: w0)
  show ?thesis by (intro conjI h1 a h2 b h3 c h4 d)
qed

text \<open>
  The failing input: a file of two statements that do not match the target signature.
  The first variant writes both back as they are. The second variant writes each with one
  more newline, so its output is the input with a blank line after every statement.
\<close>

theorem unmodified_statement_output_counterexample:
  "matches True (insertRegex2 (targetTableName (exampleConfig ''t'' [1]))) ''SELECT 1;'' = []
   \<and> written (processStatement2 (exampleConfig ''t'' [1]) ''SELECT 1;'' run0) = [''SELECT 1;\<newline>'']
   \<and> written (processStatement2 (exampleConfig ''t'' [1]) ''SELECT 1;'' run0) \<noteq> [''SELECT 1;'']
   \<and> written (processFile2 (exampleConfig ''t'' [1]) [''SELECT 1;\<newline>SELECT 2;\<newline>''])
       = [''SELECT 1;\<newline>'', ''\<newline>SELECT 2;\<newline>'']
   \<and> concat (written (processFile2 (exampleConfig ''t'' [1]) [''SELECT 1;\<newline>SELECT 2;\<newline>'']))
       \<noteq> ''SELECT 1;\<newline>SELECT 2;\<newline>''
   \<and> written (processFile1 (exampleConfig ''t'' [1]) [''SELECT 1;'', ''SELECT 2;''])
       = [''SELECT 1;\<newline>'', ''SELECT 2;\<newline>'']"
  by code_simp

lemma safetyCheck_examples:
  "safetyCheck ''NULL''" "safetyCheck ''null''" "safetyCheck ''Null''"
  "safetyCheck (quote # ''abc'' @ [quote])"
  "\<not> safetyCheck ''42''" "\<not> safetyCheck ''true''" "\<not> safetyCheck ''now()''"
  by code_simp+

text \<open>
  Claim C1 holds in the first variant (\<open>valueSet1_cases\<close>: a requested field in range is
  replaced by a token when it passes the safety check, and kept otherwise). The second
  variant has no safety check: on the statement below, with column 2 requested, it
  replaces the bare number 42 by a quoted token, where the first variant writes the
  statement back unchanged.
\<close>

theorem second_variant_replaces_bare_number:
  "written (processStatement2 (exampleConfig ''t'' [1]) ''INSERT INTO t VALUES (7, 42);'' run0)
     = [''INSERT INTO t VALUES (7, '' @ quote # ''031425364758697a'' @ [quote] @ '');\<newline>\<newline>'']
   \<and> written (processStatement1 (exampleConfig ''t'' [1]) ''INSERT INTO t VALUES (7, 42);'' 1 run0)
     = [''INSERT INTO t VALUES (7, 42);'']
   \<and> written (processStatement1 (exampleConfig ''t'' [1]) ''INSERT INTO t VALUES (7, NULL);'' 1 run0)
     = [''INSERT INTO t VALUES ( 7, '' @ quote # ''031425364758697a'' @ [quote] @ '' );'']"
  by code_simp

text \<open>
  Claim C4 fails in the first variant. After the table name its pattern allows no
  whitespace (\<^verbatim>\<open>\s*\<close>) and then any short clause text (\<^verbatim>\<open>[^;()]*?\<close>) before
  \<^verbatim>\<open>VALUES\<close>, so the rest of a longer identifier is read as clause text: with the target
  \<^verbatim>\<open>user\<close> the statement on table \<^verbatim>\<open>users\<close> matches and is anonymized. The second
  variant, which demands whitespace after the name, does not match it.
\<close>

theorem first_variant_matches_longer_table_name:
  "search True (insertRegex1 ''user'') (''INSERT INTO users VALUES (7, '' @ quote # ''a'' @ [quote] @ '');'')
     = Some 0
   \<and> written (processStatement1 (exampleConfig ''user'' [1])
        (''INSERT INTO users VALUES (7, '' @ quote # ''a'' @ [quote] @ '');'') 1 run0)
     = [''INSERT INTO users VALUES ( 7, '' @ quote # ''031425364758697a'' @ [quote] @ '' );'']
   \<and> matches True (insertRegex2 ''user'')
        (''INSERT INTO users VALUES (7, '' @ quote # ''a'' @ [quote] @ '');'') = []
   \<and> written (processStatement2 (exampleConfig ''user'' [1])
        (''INSERT INTO users VALUES (7, '' @ quote # ''a'' @ [quote] @ '');'') run0)
     = [''INSERT INTO users VALUES (7, '' @ quote # ''a'' @ [quote] @ '');\<newline>'']"
  by code_simp

section \<open>Escaped quotes\<close>

lemma parseLoop_escaped:
  "parseLoop (quote # quote # rest) v c True (Some quote)
     = parseLoop rest v (c @ [quote, quote]) True (Some quote)"
  by simp

lemma parseLoop_quotedBody:
  "quotedBody body \<Longrightarrow> rest = [] \<or> hd rest \<noteq> quote \<Longrightarrow>
   parseLoop (body @ quote # rest) v c True (Some quote)
     = parseLoop rest v (c @ body @ [quote]) False None"
proof (induction body arbitrary: c rule: quotedBody.induct)
  case 1
  then show ?case by (cases rest) auto
next
  case (2 x)
  then show ?case by (cases rest) auto
next
  case (3 x x' s)
  show ?case
  proof (cases "x = quote")
    case True
    with "3.prems" have x': "x' = quote" and s: "quotedBody s" by auto
    from "3.IH"(1) [OF True s "3.prems"(2), of "c @ [quote, quote]"] True x'
    show ?thesis by simp
  next
    case False
    with "3.prems" have "quotedBody (x' # s)" by simp
    from "3.IH"(2) [OF False this "3.prems"(2), of "c @ [x]"] False
    show ?thesis by simp
  qed
qed

lemma quotedBody_append:
  "quotedBody a \<Longrightarrow> quotedBody (a @ b) = quotedBody b"
proof (induction a rule: quotedBody.induct)
  case 1
  then show ?case by simp
next
  case (2 x)
  then show ?case by (cases b) auto
next
  case (3 x x' s)
  then show ?case by (cases "x = quote") auto
qed

lemma parseLoop_literal:
  assumes "quotedBody body" and "rest = [] \<or> hd rest \<noteq> quote"
  shows "parseLoop ((quote # body @ [quote]) @ rest) v c False qc
     = parseLoop rest v (c @ quote # body @ [quote]) False None"
  using parseLoop_quotedBody [OF assms, of v "c @ [quote]"] by simp

lemma parseLoop_prefix_values:
  "parseLoop s (p @ v) c q qc =
     (case parseLoop s v c q qc of (v', c', q', qc') \<Rightarrow> (p @ v', c', q', qc'))"
proof (induction s v c q qc rule: parseLoop.induct)
  case (1 vs cur inQ quoteChar)
  then show ?case by simp
next
  case (2 x rest vs cur inQ quoteChar)
  then show ?case by (cases rest) auto
qed

lemma parseLoop_quoteChar:
  "(q \<longrightarrow> qc = qc') \<Longrightarrow>
   (case parseLoop s v c q qc of (v', c', q', x) \<Rightarrow> (v', c', q'))
     = (case parseLoop s v c q qc' of (v', c', q', x) \<Rightarrow> (v', c', q'))"
proof (induction s v c q qc arbitrary: qc' rule: parseLoop.induct)
  case (1 vs cur inQ quoteChar)
  then show ?case by simp
next
  case (2 x rest vs cur inQ quoteChar)
  show ?case
  proof (cases inQ)
    case True
    with "2.prems" have "quoteChar = qc'" by simp
    then show ?thesis by simp
  next
    case False
    have comma: "x = CHR '','' \<Longrightarrow>
        (case parseLoop rest (vs @ [trim cur]) [] inQ quoteChar of (v', c', q', x) \<Rightarrow> (v', c', q'))
        = (case parseLoop rest (vs @ [trim cur]) [] inQ qc' of (v', c', q', x) \<Rightarrow> (v', c', q'))"
      using False by (intro "2.IH"(5)) auto
    have other: "x \<noteq> CHR '','' \<Longrightarrow> x \<noteq> quote \<Longrightarrow>
        (case parseLoop rest vs (cur @ [x]) inQ quoteChar of (v', c', q', x) \<Rightarrow> (v', c', q'))
        = (case parseLoop rest vs (cur @ [x]) inQ qc' of (v', c', q', x) \<Rightarrow> (v', c', q'))"
      using False by (intro "2.IH"(6)) auto
    from False comma other show ?thesis by auto
  qed
qed

section \<open>Properties of the matcher\<close>

lemma star_suffix:
  "(\<And>s t. t \<in> set (m s) \<Longrightarrow> suffix t s) \<Longrightarrow> t \<in> set (star m s) \<Longrightarrow> suffix t s"
proof (induction m s arbitrary: t rule: star.induct)
  case (1 m s)
  from "1.prems"(2) have "t = s \<or> (\<exists>s' \<in> set (m s). length s' < length s \<and> t \<in> set (star m s'))"
    by (subst (asm) star.simps) (auto split: if_splits)
  then show ?case
  proof
    assume "t = s"
    then show ?thesis by simp
  next
    assume "\<exists>s' \<in> set (m s). length s' < length s \<and> t \<in> set (star m s')"
    then obtain s' where s': "s' \<in> set (m s)" "length s' < length s" "t \<in> set (star m s')"
      by blast
    from "1.IH" [OF s'(1,2) "1.prems"(1) s'(3)] have "suffix t s'" .
    moreover have "suffix s' s" using s'(1) by (rule "1.prems"(1))
    ultimately show ?thesis by (rule suffix_order.trans)
  qed
qed

lemma star_set_eq:
  "(\<And>s. set (m s) = set (m' s)) \<Longrightarrow> set (starLazy m s) = set (star m' s)"
proof (induction m s rule: starLazy.induct)
  case (1 m s)
  have "set (starLazy m s) = insert s (\<Union>s' \<in> {s' \<in> set (m s). length s' < length s}. set (starLazy m s'))"
    by (subst starLazy.simps) auto
  also have "\<dots> = insert s (\<Union>s' \<in> {s' \<in> set (m s). length s' < length s}. set (star m' s'))"
    using "1.IH" "1.prems" by auto
  also have "\<dots> = insert s (\<Union>s' \<in> {s' \<in> set (m' s). length s' < length s}. set (star m' s'))"
    by (simp add: "1.prems")
  also have "\<dots> = set (star m' s)"
    by (subst (2) star.simps) auto
  finally show ?case .
qed

lemma matches_suffix: "t \<in> set (matches ic r s) \<Longrightarrow> suffix t s"
proof (induction r arbitrary: s t)
  case (Atom a)
  then show ?case by (cases s) (auto split: if_splits simp: suffix_Cons)
next
  case Eps
  then show ?case by simp
next
  case (Seq r1 r2)
  from Seq.prems obtain u where "u \<in> set (matches ic r1 s)" "t \<in> set (matches ic r2 u)"
    by auto
  then show ?case using Seq.IH by (blast intro: suffix_order.trans)
next
  case (Alt r1 r2)
  then show ?case by auto
next
  case (Star r)
  then show ?case using star_suffix [of "matches ic r" t s] by simp
next
  case (StarLazy r)
  have "set (starLazy (matches ic r) s) = set (star (matches ic r) s)"
    by (rule star_set_eq) simp
  with StarLazy show ?case using star_suffix [of "matches ic r" t s] by simp
qed

lemma star_unfold:
  "set (star m s) = insert s (\<Union>s' \<in> {s' \<in> set (m s). length s' < length s}. set (star m s'))"
  by (subst star.simps) auto

lemma star_sound:
  "(\<And>s t. t \<in> set (m s) \<Longrightarrow> \<exists>u \<in> A. s = u @ t) \<Longrightarrow> t \<in> set (star m s) \<Longrightarrow>
   \<exists>u \<in> starL A. s = u @ t"
proof (induction m s arbitrary: t rule: star.induct)
  case (1 m s)
  from "1.prems"(2) have "t = s \<or> (\<exists>s' \<in> set (m s). length s' < length s \<and> t \<in> set (star m s'))"
    by (auto simp: star_unfold [of m s])
  then show ?case
  proof
    assume "t = s"
    then show ?thesis using starL.Nil [of A] by auto
  next
    assume "\<exists>s' \<in> set (m s). length s' < length s \<and> t \<in> set (star m s')"
    then obtain s' where s': "s' \<in> set (m s)" "length s' < length s" "t \<in> set (star m s')"
      by blast
    from "1.IH" [OF s'(1,2) "1.prems"(1) s'(3)] obtain u2 where u2: "u2 \<in> starL A" "s' = u2 @ t"
      by blast
    from "1.prems"(1) [OF s'(1)] obtain u1 where u1: "u1 \<in> A" "s = u1 @ s'" by blast
    from u1(1) u2(1) have "u1 @ u2 \<in> starL A" by (rule starL.Cons)
    moreover have "s = (u1 @ u2) @ t" using u1(2) u2(2) by simp
    ultimately show ?thesis by blast
  qed
qed

lemma star_complete:
  assumes m: "\<And>u t. u \<in> A \<Longrightarrow> t \<in> set (m (u @ t))"
  shows "u \<in> starL A \<Longrightarrow> t \<in> set (star m (u @ t))"
proof (induction u rule: starL.induct)
  case Nil
  then show ?case by (simp add: star_unfold [of m t])
next
  case (Cons u v)
  show ?case
  proof (cases "u = []")
    case True
    with Cons.IH show ?thesis by simp
  next
    case False
    have "v @ t \<in> set (m (u @ v @ t))" using Cons.hyps(1) by (rule m)
    moreover have "length (v @ t) < length (u @ v @ t)" using False by simp
    ultimately have "t \<in> set (star m (u @ v @ t))"
      using Cons.IH by (subst star_unfold) blast
    then show ?thesis by simp
  qed
qed

theorem matches_lang: "t \<in> set (matches ic r s) \<longleftrightarrow> (\<exists>u \<in> lang ic r. s = u @ t)"
proof (induction r arbitrary: s t)
  case (Atom a)
  then show ?case by (cases s) auto
next
  case Eps
  then show ?case by auto
next
  case (Seq r1 r2)
  show ?case
  proof
    assume "t \<in> set (matches ic (Seq r1 r2) s)"
    then obtain s1 where "s1 \<in> set (matches ic r1 s)" "t \<in> set (matches ic r2 s1)" by auto
    with Seq.IH obtain u v where "u \<in> lang ic r1" "s = u @ s1" "v \<in> lang ic r2" "s1 = v @ t"
      by blast
    then have "u @ v \<in> lang ic (Seq r1 r2)" "s = (u @ v) @ t" by auto
    then show "\<exists>u \<in> lang ic (Seq r1 r2). s = u @ t" by blast
  next
    assume "\<exists>u \<in> lang ic (Seq r1 r2). s = u @ t"
    then obtain u v where uv: "u \<in> lang ic r1" "v \<in> lang ic r2" "s = u @ v @ t" by auto
    then have "v @ t \<in> set (matches ic r1 s)" using Seq.IH(1) by blast
    moreover have "t \<in> set (matches ic r2 (v @ t))" using uv(2) Seq.IH(2) by blast
    ultimately show "t \<in> set (matches ic (Seq r1 r2) s)" by auto
  qed
next
  case (Alt r1 r2)
  then show ?case by auto
next
  case (Star r)
  show ?case
  proof
    assume "t \<in> set (matches ic (Star r) s)"
    then have "t \<in> set (star (matches ic r) s)" by simp
    then have "\<exists>u \<in> starL (lang ic r). s = u @ t"
      by (rule star_sound [rotated]) (use Star.IH in blast)
    then show "\<exists>u \<in> lang ic (Star r). s = u @ t" by simp
  next
    assume "\<exists>u \<in> lang ic (Star r). s = u @ t"
    then obtain u where u: "u \<in> starL (lang ic r)" "s = u @ t" by auto
    have "t \<in> set (star (matches ic r) (u @ t))"
      by (rule star_complete [OF _ u(1)]) (use Star.IH in blast)
    then show "t \<in> set (matches ic (Star r) s)" using u(2) by simp
  qed
next
  case (StarLazy r)
  have eq: "set (starLazy (matches ic r) s) = set (star (matches ic r) s)"
    by (rule star_set_eq) simp
  show ?case
  proof
    assume "t \<in> set (matches ic (StarLazy r) s)"
    then have "t \<in> set (star (matches ic r) s)" using eq by simp
    then have "\<exists>u \<in> starL (lang ic r). s = u @ t"
      by (rule star_sound [rotated]) (use StarLazy.IH in blast)
    then show "\<exists>u \<in> lang ic (StarLazy r). s = u @ t" by simp
  next
    assume "\<exists>u \<in> lang ic (StarLazy r). s = u @ t"
    then obtain u where u: "u \<in> starL (lang ic r)" "s = u @ t" by auto
    have "t \<in> set (star (matches ic r) (u @ t))"
      by (rule star_complete [OF _ u(1)]) (use StarLazy.IH in blast)
    then show "t \<in> set (matches ic (StarLazy r) s)" using u(2) eq by simp
  qed
qed

lemma canonicalize_False [simp]: "canonicalize False c = c"
  by (simp add: canonicalize_def)

lemma atomMatches_plain [simp]: "atomMatches False (NotIn ''()'') c = plainChar c"
  by (auto simp: plainChar_def canonicalize_def)

lemma atomMatches_plain_fun [simp]: "atomMatches False (NotIn ''()'') = plainChar"
  by (rule ext) (auto simp: plainChar_def)

lemma atomMatches_lit [simp]: "atomMatches False (Lit a) c \<longleftrightarrow> c = a"
  by (auto simp: canonicalize_def)

lemma starL_atoms: "starL {[c] | c. P c} = {u. list_all P u}"
proof (intro set_eqI iffI)
  fix u
  assume "u \<in> starL {[c] | c. P c}"
  then show "u \<in> {u. list_all P u}" by (induction rule: starL.induct) auto
next
  fix u
  assume "u \<in> {u. list_all P u}"
  then have "list_all P u" by simp
  then show "u \<in> starL {[c] | c. P c}"
  proof (induction u)
    case Nil
    show ?case by (rule starL.Nil)
  next
    case (Cons c u)
    then have "[c] \<in> {[c] | c. P c}" "u \<in> starL {[c] | c. P c}" by auto
    then have "[c] @ u \<in> starL {[c] | c. P c}" by (rule starL.Cons)
    then show ?case by simp
  qed
qed

lemma lang_star_atom: "lang ic (Star (Atom a)) = {u. list_all (atomMatches ic a) u}"
  by (simp add: starL_atoms)

lemma lang_starLazy_atom: "lang ic (StarLazy (Atom a)) = {u. list_all (atomMatches ic a) u}"
  by (simp add: starL_atoms)

lemma depthAfter_append:
  "depthAfter d (a @ b) = (case depthAfter d a of None \<Rightarrow> None | Some d' \<Rightarrow> depthAfter d' b)"
  by (induction a arbitrary: d) auto

lemma depthAfter_plain: "list_all plainChar u \<Longrightarrow> depthAfter d u = Some d"
  by (induction u) (auto simp: plainChar_def)

lemma depthAfter_group: "g \<in> groupLang \<Longrightarrow> depthAfter False g = Some False"
  by (auto simp: groupLang_def depthAfter_append depthAfter_plain)

lemma depthAfter_groups: "w \<in> starL groupLang \<Longrightarrow> depthAfter False w = Some False"
  by (induction rule: starL.induct) (auto simp: depthAfter_append depthAfter_group)

lemma split_plain:
  obtains a r where "s = a @ r" "list_all plainChar a" "r = [] \<or> \<not> plainChar (hd r)"
proof
  show "s = takeWhile plainChar s @ dropWhile plainChar s" by simp
  show "list_all plainChar (takeWhile plainChar s)"
    by (simp add: list_all_iff) (meson set_takeWhileD)
  show "dropWhile plainChar s = [] \<or> \<not> plainChar (hd (dropWhile plainChar s))"
    using hd_dropWhile [of plainChar s] by blast
qed

lemma flat_decompose:
  "depthAfter False s = Some False \<Longrightarrow>
   \<exists>a w. s = a @ w \<and> list_all plainChar a \<and> w \<in> starL groupLang"
proof (induction s rule: length_induct)
  case (1 s)
  obtain a0 r where s: "s = a0 @ r" and a0: "list_all plainChar a0"
    and r: "r = [] \<or> \<not> plainChar (hd r)" by (rule split_plain)
  from "1.prems" have dr: "depthAfter False r = Some False"
    by (simp add: s depthAfter_append depthAfter_plain [OF a0])
  show ?case
  proof (cases r)
    case Nil
    with s a0 starL.Nil [of groupLang] show ?thesis by auto
  next
    case (Cons c r1)
    with r have "c = CHR ''('' \<or> c = CHR '')''" by (auto simp: plainChar_def)
    with dr Cons have c: "c = CHR ''(''" and d1: "depthAfter True r1 = Some False"
      by (auto split: if_splits)
    obtain a1 r2 where r1: "r1 = a1 @ r2" and a1: "list_all plainChar a1"
      and r2: "r2 = [] \<or> \<not> plainChar (hd r2)" by (rule split_plain)
    from d1 have d2: "depthAfter True r2 = Some False"
      by (simp add: r1 depthAfter_append depthAfter_plain [OF a1])
    then obtain c2 r3 where r2c: "r2 = c2 # r3" by (cases r2) auto
    with r2 have "c2 = CHR ''('' \<or> c2 = CHR '')''" by (auto simp: plainChar_def)
    with d2 r2c have c2: "c2 = CHR '')''" and d3: "depthAfter False r3 = Some False"
      by (auto split: if_splits)
    have "length r3 < length s" by (simp add: s Cons r1 r2c)
    with "1.IH" d3 obtain a' w' where r3: "r3 = a' @ w'" and a': "list_all plainChar a'"
      and w': "w' \<in> starL groupLang" by blast
    have "''('' @ a1 @ '')'' @ a' \<in> groupLang" using a1 a' by (auto simp: groupLang_def)
    then have "(''('' @ a1 @ '')'' @ a') @ w' \<in> starL groupLang" using w' by (rule starL.Cons)
    moreover have "s = a0 @ ((''('' @ a1 @ '')'' @ a') @ w')"
      by (simp add: s Cons c r1 r2c c2 r3)
    ultimately show ?thesis using a0 by blast
  qed
qed

lemma lang_group:
  "lang False (Seqs [Atom (Lit CHR ''(''), Star (Atom (NotIn ''()'')), Atom (Lit CHR '')''),
                     Star (Atom (NotIn ''()''))]) = groupLang"
proof (intro set_eqI iffI)
  fix x
  assume "x \<in> lang False (Seqs [Atom (Lit CHR ''(''), Star (Atom (NotIn ''()'')),
      Atom (Lit CHR '')''), Star (Atom (NotIn ''()''))])"
  then obtain a b where "x = ''('' @ a @ '')'' @ b" "list_all plainChar a" "list_all plainChar b"
    by (auto simp: Seqs_def starL_atoms simp del: atomMatches.simps)
  then show "x \<in> groupLang" unfolding groupLang_def by blast
next
  fix x
  assume "x \<in> groupLang"
  then obtain a b where x: "x = ''('' @ a @ '')'' @ b" and a: "list_all plainChar a"
    and b: "list_all plainChar b"
    unfolding groupLang_def by blast
  have "b @ [] \<in> lang False (Seq (Star (Atom (NotIn ''()''))) Eps)"
    using b by (simp add: starL_atoms del: atomMatches.simps)
  then have "'')'' @ b @ [] \<in> lang False (Seq (Atom (Lit CHR '')'')) (Seq (Star (Atom (NotIn ''()''))) Eps))"
    by (auto simp del: atomMatches.simps lang.simps(5))
  moreover have "a \<in> lang False (Star (Atom (NotIn ''()'')))"
    using a by (simp add: starL_atoms del: atomMatches.simps)
  ultimately have "a @ '')'' @ b @ [] \<in> lang False (Seq (Star (Atom (NotIn ''()'')))
      (Seq (Atom (Lit CHR '')'')) (Seq (Star (Atom (NotIn ''()''))) Eps)))"
    unfolding lang.simps(3) [of False "Star _"] by blast
  then have "''('' @ a @ '')'' @ b @ [] \<in> lang False (Seq (Atom (Lit CHR ''('')) (Seq (Star (Atom (NotIn ''()'')))
      (Seq (Atom (Lit CHR '')'')) (Seq (Star (Atom (NotIn ''()''))) Eps))))"
    unfolding lang.simps(3) [of False "Atom _"] lang.simps(1)
    by (auto simp del: atomMatches.simps lang.simps)
  then show "x \<in> lang False (Seqs [Atom (Lit CHR ''(''), Star (Atom (NotIn ''()'')),
      Atom (Lit CHR '')''), Star (Atom (NotIn ''()''))])"
    by (simp add: x Seqs_def del: lang.simps)
qed

lemma lang_body:
  "lang False (Seq (Star (Atom (NotIn ''()'')))
                   (Star (Seqs [Atom (Lit CHR ''(''), Star (Atom (NotIn ''()'')),
                                Atom (Lit CHR '')''), Star (Atom (NotIn ''()''))])))
     = {u. flatBalanced u}"
proof (intro set_eqI iffI)
  fix u
  assume "u \<in> lang False (Seq (Star (Atom (NotIn ''()'')))
                   (Star (Seqs [Atom (Lit CHR ''(''), Star (Atom (NotIn ''()'')),
                                Atom (Lit CHR '')''), Star (Atom (NotIn ''()''))])))"
  then obtain a w where "u = a @ w" "list_all plainChar a" "w \<in> starL groupLang"
    unfolding lang.simps(3) lang.simps(5) [of False "Seqs _"] lang_group lang_star_atom
    by (auto simp del: atomMatches.simps)
  then show "u \<in> {u. flatBalanced u}"
    by (simp add: flatBalanced_def depthAfter_append depthAfter_plain depthAfter_groups)
next
  fix u
  assume "u \<in> {u. flatBalanced u}"
  then have "depthAfter False u = Some False" by (simp add: flatBalanced_def)
  then obtain a w where "u = a @ w" "list_all plainChar a" "w \<in> starL groupLang"
    using flat_decompose by blast
  then show "u \<in> lang False (Seq (Star (Atom (NotIn ''()'')))
                   (Star (Seqs [Atom (Lit CHR ''(''), Star (Atom (NotIn ''()'')),
                                Atom (Lit CHR '')''), Star (Atom (NotIn ''()''))])))"
    unfolding lang.simps(3) lang.simps(5) [of False "Seqs _"] lang_group lang_star_atom
    by (auto simp del: atomMatches.simps)
qed

lemma execAt_lang:
  assumes "execAt ic (lead, grp, trail) s = Some (full, g, rest)"
  shows "\<exists>p u q. p \<in> lang ic lead \<and> u \<in> lang ic grp \<and> q \<in> lang ic trail
           \<and> s = p @ u @ q @ rest \<and> full = p @ u @ q \<and> g = u"
proof -
  define cands where "cands = concat (map (\<lambda>s1. concat (map (\<lambda>s2. map (\<lambda>s3. (s1, s2, s3))
      (matches ic trail s2)) (matches ic grp s1))) (matches ic lead s))"
  have ex: "execAt ic (lead, grp, trail) s =
      (case cands of [] \<Rightarrow> None
       | (s1, s2, s3) # _ \<Rightarrow>
           Some (take (length s - length s3) s, take (length s1 - length s2) s1, s3))"
    by (simp add: execAt_def cands_def)
  with assms obtain s1 s2 tl where c: "cands = (s1, s2, rest) # tl"
    and full: "full = take (length s - length rest) s"
    and g: "g = take (length s1 - length s2) s1"
    by (cases cands) auto
  have "(s1, s2, rest) \<in> set cands" by (simp add: c)
  then have m: "s1 \<in> set (matches ic lead s)" "s2 \<in> set (matches ic grp s1)"
    "rest \<in> set (matches ic trail s2)" by (auto simp: cands_def)
  from m(1) obtain p where p: "p \<in> lang ic lead" "s = p @ s1"
    unfolding matches_lang by blast
  from m(2) obtain u where u: "u \<in> lang ic grp" "s1 = u @ s2"
    unfolding matches_lang by blast
  from m(3) obtain q where q: "q \<in> lang ic trail" "s2 = q @ rest"
    unfolding matches_lang by blast
  have "s = p @ u @ q @ rest" using p u q by simp
  moreover have "full = p @ u @ q" using full p u q by simp
  moreover have "g = u" using g u by simp
  ultimately show ?thesis using p(1) u(1) q(1) by blast
qed

lemma execAt_found:
  assumes "p \<in> lang ic lead" "u \<in> lang ic grp" "q \<in> lang ic trail"
  shows "execAt ic (lead, grp, trail) (p @ u @ q @ rest) \<noteq> None"
proof -
  define s where "s = p @ u @ q @ rest"
  define cands where "cands = concat (map (\<lambda>s1. concat (map (\<lambda>s2. map (\<lambda>s3. (s1, s2, s3))
      (matches ic trail s2)) (matches ic grp s1))) (matches ic lead s))"
  have ex: "execAt ic (lead, grp, trail) s =
      (case cands of [] \<Rightarrow> None
       | (s1, s2, s3) # _ \<Rightarrow>
           Some (take (length s - length s3) s, take (length s1 - length s2) s1, s3))"
    by (simp add: execAt_def cands_def)
  have "u @ q @ rest \<in> set (matches ic lead s)"
    unfolding s_def matches_lang using assms(1) by blast
  moreover have "q @ rest \<in> set (matches ic grp (u @ q @ rest))"
    unfolding matches_lang using assms(2) by blast
  moreover have "rest \<in> set (matches ic trail (q @ rest))"
    unfolding matches_lang using assms(3) by blast
  ultimately have "(u @ q @ rest, q @ rest, rest) \<in> set cands"
    unfolding cands_def by auto
  then have "cands \<noteq> []" by auto
  then show ?thesis
    unfolding s_def [symmetric] ex by (cases cands) auto
qed

lemma execAt_no_lead:
  "matches ic lead s = [] \<Longrightarrow> execAt ic (lead, grp, trail) s = None"
  by (simp add: execAt_def)

lemma flatBalanced_closing:
  "flatBalanced x \<Longrightarrow> \<not> flatBalanced (x @ CHR '')'' # w)"
  by (simp add: flatBalanced_def depthAfter_append)

lemma flatBalanced_unique:
  assumes "flatBalanced u" "flatBalanced x" "u @ '')'' @ r' = x @ '')'' @ r"
  shows "u = x \<and> r' = r"
proof -
  from append_eq_append_conv2 [THEN iffD1, OF assms(3)] obtain w where
    "(u = x @ w \<and> w @ '')'' @ r' = '')'' @ r) \<or> (u @ w = x \<and> '')'' @ r' = w @ '')'' @ r)"
    by blast
  then show ?thesis
  proof
    assume a: "u = x @ w \<and> w @ '')'' @ r' = '')'' @ r"
    show ?thesis
    proof (cases w)
      case Nil
      with a show ?thesis by simp
    next
      case (Cons c w')
      with a have "c = CHR '')''" by simp
      with a Cons have "u = x @ CHR '')'' # w'" by simp
      with assms(1) flatBalanced_closing [OF assms(2), of w'] show ?thesis by simp
    qed
  next
    assume a: "u @ w = x \<and> '')'' @ r' = w @ '')'' @ r"
    show ?thesis
    proof (cases w)
      case Nil
      with a show ?thesis by simp
    next
      case (Cons c w')
      with a have "c = CHR '')''" by simp
      with a Cons have "x = u @ CHR '')'' # w'" by simp
      with assms(2) flatBalanced_closing [OF assms(1), of w'] show ?thesis by simp
    qed
  qed
qed

lemma lang_lit: "lang False (Atom (Lit c)) = {[c]}"
  by auto

lemma execAt_valueSetRegex2:
  assumes "flatBalanced x"
  shows "execAt False valueSetRegex2 (''('' @ x @ '')'' @ rest) = Some (''('' @ x @ '')'', x, rest)"
proof -
  let ?s = "''('' @ x @ '')'' @ rest"
  note body = lang_body
  have "x \<in> lang False (fst (snd valueSetRegex2))"
    using assms by (simp add: valueSetRegex2_def body del: lang.simps)
  then have "execAt False valueSetRegex2 (''('' @ x @ '')'' @ rest) \<noteq> None"
    using execAt_found [of "''(''" False "Atom (Lit CHR ''('')" x "fst (snd valueSetRegex2)"
        "'')''" "Atom (Lit CHR '')'')" rest]
    by (simp add: valueSetRegex2_def del: lang.simps(3,5))
  then obtain full g r where ex: "execAt False valueSetRegex2 ?s = Some (full, g, r)"
    by (cases "execAt False valueSetRegex2 ?s") auto
  then have "execAt False (Atom (Lit CHR ''(''), fst (snd valueSetRegex2), Atom (Lit CHR '')'')) ?s
      = Some (full, g, r)"
    by (simp add: valueSetRegex2_def)
  from execAt_lang [OF this] obtain p u q where
    "p \<in> lang False (Atom (Lit CHR ''(''))" "u \<in> lang False (fst (snd valueSetRegex2))"
    "q \<in> lang False (Atom (Lit CHR '')''))" "?s = p @ u @ q @ r" "full = p @ u @ q" "g = u"
    by blast
  then have p: "p = ''(''" and q: "q = '')''" and u: "flatBalanced u"
    and s: "?s = p @ u @ q @ r" and full: "full = p @ u @ q" and g: "g = u"
    by (simp_all add: valueSetRegex2_def body del: lang.simps(3,5))
  from s p q have "u @ '')'' @ r = x @ '')'' @ rest" by simp
  with flatBalanced_unique [OF u assms] have "u = x" "r = rest" by blast+
  with ex full g p q show ?thesis by simp
qed

lemma whiteSpace_plain: "isWhiteSpace c \<Longrightarrow> plainChar c"
  by (auto simp: isWhiteSpace_def plainChar_def)

lemma whiteSpaces_plain: "list_all isWhiteSpace w \<Longrightarrow> list_all plainChar w"
  by (induction w) (auto simp: whiteSpace_plain)

lemma trim_pad:
  assumes w1: "list_all isWhiteSpace w1" and w2: "list_all isWhiteSpace w2"
  shows "trim (w1 @ u @ w2) = trim u"
proof -
  have w2r: "\<And>d. dropWhile isWhiteSpace (rev w2 @ d) = dropWhile isWhiteSpace d"
    using w2 by (intro dropWhile_append2) (simp add: list_all_iff)
  have start: "dropWhile isWhiteSpace (w1 @ u @ w2) = dropWhile isWhiteSpace (u @ w2)"
    using w1 by (intro dropWhile_append2) (simp add: list_all_iff)
  show ?thesis
  proof (cases "list_all isWhiteSpace u")
    case True
    then have "list_all isWhiteSpace (u @ w2)" using w2 by simp
    then have "trim (u @ w2) = []" by (intro trim_blank) (simp add: list_all_iff)
    moreover have "trim u = []" using True by (intro trim_blank) (simp add: list_all_iff)
    moreover have "trim (w1 @ u @ w2) = trim (u @ w2)"
      using start by (simp add: trim_def trimStart_def)
    ultimately show ?thesis by simp
  next
    case False
    then obtain c where "c \<in> set u" "\<not> isWhiteSpace c" by (auto simp: list_all_iff)
    then have "dropWhile isWhiteSpace (u @ w2) = dropWhile isWhiteSpace u @ w2"
      by (rule dropWhile_append1)
    with start have "trimStart (w1 @ u @ w2) = trimStart u @ w2" by (simp add: trimStart_def)
    then show ?thesis by (simp add: trim_def trimEnd_def w2r)
  qed
qed

lemma lang_spaces: "lang ic (Star (Atom Space)) = {w. list_all isWhiteSpace w}"
proof -
  have "atomMatches ic Space = isWhiteSpace" by (rule ext) simp
  then show ?thesis by (simp add: starL_atoms del: atomMatches.simps)
qed

lemma lang_lead1:
  "lang False (Seq (Atom (Lit CHR ''('')) (Star (Atom Space))) = {''('' @ w | w. list_all isWhiteSpace w}"
  unfolding lang.simps(3) lang_spaces lang_lit by auto

lemma lang_trail1:
  "lang False (Seq (Star (Atom Space)) (Atom (Lit CHR '')''))) = {w @ '')'' | w. list_all isWhiteSpace w}"
  unfolding lang.simps(3) lang_spaces lang_lit by auto

lemma lang_body1:
  "lang False (fst (snd valueSetRegex1)) = {u. flatBalanced u}"
proof -
  have "lang False (fst (snd valueSetRegex1)) = lang False (fst (snd valueSetRegex2))"
    by (simp add: valueSetRegex1_def valueSetRegex2_def Seqs_def)
  then show ?thesis by (simp add: valueSetRegex2_def lang_body del: lang.simps)
qed

lemma execAt_valueSetRegex1:
  assumes "flatBalanced x"
  shows "\<exists>g. trim g = trim x
           \<and> execAt False valueSetRegex1 (''('' @ x @ '')'' @ rest) = Some (''('' @ x @ '')'', g, rest)"
proof -
  let ?s = "''('' @ x @ '')'' @ rest"
  let ?lead = "Seq (Atom (Lit CHR ''('')) (Star (Atom Space))"
  let ?trail = "Seq (Star (Atom Space)) (Atom (Lit CHR '')''))"
  have R: "execAt False valueSetRegex1 ?s
      = execAt False (?lead, fst (snd valueSetRegex1), ?trail) ?s"
    by (simp add: valueSetRegex1_def)
  have "''('' @ [] \<in> lang False ?lead" unfolding lang_lead1 by simp
  moreover have "x \<in> lang False (fst (snd valueSetRegex1))" using assms by (simp add: lang_body1)
  moreover have "[] @ '')'' \<in> lang False ?trail" unfolding lang_trail1 by simp
  ultimately have "execAt False (?lead, fst (snd valueSetRegex1), ?trail)
      ((''('' @ []) @ x @ ([] @ '')'') @ rest) \<noteq> None"
    by (rule execAt_found)
  then have "execAt False valueSetRegex1 ?s \<noteq> None" unfolding R by simp
  then obtain full g r where ex: "execAt False valueSetRegex1 ?s = Some (full, g, r)"
    by (cases "execAt False valueSetRegex1 ?s") auto
  then have "execAt False (?lead, fst (snd valueSetRegex1), ?trail) ?s = Some (full, g, r)"
    unfolding R .
  from execAt_lang [OF this] obtain p u q where
    p: "p \<in> lang False ?lead" and u: "u \<in> lang False (fst (snd valueSetRegex1))"
    and q: "q \<in> lang False ?trail" and s: "?s = p @ u @ q @ r" and full: "full = p @ u @ q"
    and g: "g = u"
    by blast
  from p obtain w1 where w1: "p = ''('' @ w1" "list_all isWhiteSpace w1"
    unfolding lang_lead1 by blast
  from q obtain w2 where w2: "q = w2 @ '')''" "list_all isWhiteSpace w2"
    unfolding lang_trail1 by blast
  from u have fu: "flatBalanced u" by (simp add: lang_body1)
  have "flatBalanced (w1 @ u @ w2)"
    using fu whiteSpaces_plain [OF w1(2)] whiteSpaces_plain [OF w2(2)]
    by (simp add: flatBalanced_def depthAfter_append depthAfter_plain)
  moreover from s w1 w2 have "(w1 @ u @ w2) @ '')'' @ r = x @ '')'' @ rest" by simp
  ultimately have eq: "w1 @ u @ w2 = x" "r = rest"
    using flatBalanced_unique [of "w1 @ u @ w2" x r rest] assms by blast+
  have "trim x = trim u" using trim_pad [OF w1(2) w2(2), of u] eq(1) by simp
  moreover have "full = ''('' @ x @ '')''" using full w1 w2 eq(1) by auto
  ultimately show ?thesis using ex g eq(2) by simp
qed

lemma execAt_not_open:
  "c \<noteq> CHR ''('' \<Longrightarrow> execAt False valueSetRegex1 (c # t) = None"
  "c \<noteq> CHR ''('' \<Longrightarrow> execAt False valueSetRegex2 (c # t) = None"
  "execAt False valueSetRegex1 [] = None"
  "execAt False valueSetRegex2 [] = None"
  by (simp_all add: execAt_def valueSetRegex1_def valueSetRegex2_def)

lemma execFrom_skip:
  assumes "\<And>c t. c \<noteq> CHR ''('' \<Longrightarrow> execAt ic R (c # t) = None"
  shows "CHR ''('' \<notin> set lead \<Longrightarrow>
     execFrom ic R (lead @ s) =
       (case execFrom ic R s of
          None \<Rightarrow> None
        | Some (gap, full, g, rest) \<Rightarrow> Some (lead @ gap, full, g, rest))"
proof (induction lead)
  case Nil
  then show ?case by (auto split: option.splits)
next
  case (Cons c lead)
  then have c: "c \<noteq> CHR ''(''" and l: "CHR ''('' \<notin> set lead" by auto
  have "execAt ic R (c # lead @ s) = None" using c by (rule assms)
  then show ?case using Cons.IH [OF l] by (simp split: option.splits)
qed

lemma execFrom_none:
  assumes "\<And>c t. c \<noteq> CHR ''('' \<Longrightarrow> execAt ic R (c # t) = None" and "execAt ic R [] = None"
    and "CHR ''('' \<notin> set s"
  shows "execFrom ic R s = None"
  using execFrom_skip [of ic R s "[]", OF assms(1) assms(3)] assms(2) by simp

lemma execAll_step:
  "execFrom ic R s = Some (gap, full, g, rest) \<Longrightarrow> length rest < length s \<Longrightarrow>
   execAll ic R s = (case execAll ic R rest of (ms, tail) \<Rightarrow> ((gap, full, g) # ms, tail))"
  by (subst execAll.simps) simp

lemma execAll_none: "execFrom ic R s = None \<Longrightarrow> execAll ic R s = ([], s)"
  by (subst execAll.simps) simp

lemma execAt_valueSetRegex_shorter:
  "execAt False valueSetRegex1 s = Some (full, g, rest) \<Longrightarrow> length rest < length s"
  "execAt False valueSetRegex2 s = Some (full, g, rest) \<Longrightarrow> length rest < length s"
proof -
  assume "execAt False valueSetRegex1 s = Some (full, g, rest)"
  then have "execAt False (Seq (Atom (Lit CHR ''('')) (Star (Atom Space)), fst (snd valueSetRegex1),
      Seq (Star (Atom Space)) (Atom (Lit CHR '')''))) s = Some (full, g, rest)"
    by (simp add: valueSetRegex1_def)
  from execAt_lang [OF this] obtain p u q where
    "p \<in> lang False (Seq (Atom (Lit CHR ''('')) (Star (Atom Space)))" "s = p @ u @ q @ rest"
    by blast
  then show "length rest < length s" unfolding lang_lead1 by auto
next
  assume "execAt False valueSetRegex2 s = Some (full, g, rest)"
  then have "execAt False (Atom (Lit CHR ''(''), fst (snd valueSetRegex2), Atom (Lit CHR '')'')) s
      = Some (full, g, rest)"
    by (simp add: valueSetRegex2_def)
  from execAt_lang [OF this] obtain p u q where
    "p \<in> lang False (Atom (Lit CHR ''(''))" "s = p @ u @ q @ rest"
    by blast
  then show "length rest < length s" unfolding lang_lit by auto
qed

lemma execAll_tuple:
  assumes skip: "\<And>c t. c \<noteq> CHR ''('' \<Longrightarrow> execAt False R (c # t) = None"
    and at: "execAt False R (''('' @ x @ '')'' @ rest) = Some (''('' @ x @ '')'', g, rest)"
    and lead: "CHR ''('' \<notin> set lead"
  shows "execAll False R (lead @ ''('' @ x @ '')'' @ rest) =
           (case execAll False R rest of (ms, tail) \<Rightarrow> ((lead, ''('' @ x @ '')'', g) # ms, tail))"
proof -
  have "execFrom False R (''('' @ x @ '')'' @ rest) = Some ([], ''('' @ x @ '')'', g, rest)"
    using at by simp
  then have "execFrom False R (lead @ ''('' @ x @ '')'' @ rest) = Some (lead, ''('' @ x @ '')'', g, rest)"
    using execFrom_skip [of False R lead "''('' @ x @ '')'' @ rest", OF skip lead] by simp
  then show ?thesis by (rule execAll_step) simp
qed

text \<open>
  Claim C5, as the code has it. The tuple patterns do not look at quotes, and they do not
  count depth: a tuple is an opening parenthesis, a text whose parentheses are balanced
  pairs that are not nested (\<open>flatBalanced\<close>), and a closing parenthesis. Wherever such a
  row stands in the text after \<^verbatim>\<open>VALUES\<close>, behind a text without an opening parenthesis,
  both variants extract exactly the whole row as the next tuple and go on behind it; the
  group of the second variant is the interior, the group of the first variant is the
  interior up to surrounding whitespace. A text without an opening parenthesis holds no
  tuple.
\<close>

theorem tuple_extraction_flat:
  assumes "flatBalanced x" and "CHR ''('' \<notin> set lead"
  shows
    "execAll False valueSetRegex2 (lead @ ''('' @ x @ '')'' @ rest) =
       (case execAll False valueSetRegex2 rest of
          (ms, tail) \<Rightarrow> ((lead, ''('' @ x @ '')'', x) # ms, tail))
     \<and> (\<exists>g. trim g = trim x
           \<and> execAll False valueSetRegex1 (lead @ ''('' @ x @ '')'' @ rest) =
               (case execAll False valueSetRegex1 rest of
                  (ms, tail) \<Rightarrow> ((lead, ''('' @ x @ '')'', g) # ms, tail)))
     \<and> (CHR ''('' \<notin> set rest \<longrightarrow>
           execAll False valueSetRegex2 rest = ([], rest)
           \<and> execAll False valueSetRegex1 rest = ([], rest))"
proof (intro conjI impI)
  show "execAll False valueSetRegex2 (lead @ ''('' @ x @ '')'' @ rest) =
       (case execAll False valueSetRegex2 rest of
          (ms, tail) \<Rightarrow> ((lead, ''('' @ x @ '')'', x) # ms, tail))"
    using execAt_not_open(2) execAt_valueSetRegex2 [OF assms(1)] assms(2)
    by (rule execAll_tuple)
next
  from execAt_valueSetRegex1 [OF assms(1), of rest] obtain g where g: "trim g = trim x"
    "execAt False valueSetRegex1 (''('' @ x @ '')'' @ rest) = Some (''('' @ x @ '')'', g, rest)"
    by blast
  have "execAll False valueSetRegex1 (lead @ ''('' @ x @ '')'' @ rest) =
       (case execAll False valueSetRegex1 rest of
          (ms, tail) \<Rightarrow> ((lead, ''('' @ x @ '')'', g) # ms, tail))"
    using execAt_not_open(1) g(2) assms(2) by (rule execAll_tuple)
  with g(1) show "\<exists>g. trim g = trim x
           \<and> execAll False valueSetRegex1 (lead @ ''('' @ x @ '')'' @ rest) =
               (case execAll False valueSetRegex1 rest of
                  (ms, tail) \<Rightarrow> ((lead, ''('' @ x @ '')'', g) # ms, tail))"
    by blast
next
  assume "CHR ''('' \<notin> set rest"
  with execFrom_none [OF execAt_not_open(2) execAt_not_open(4)]
  have "execFrom False valueSetRegex2 rest = None" by blast
  then show "execAll False valueSetRegex2 rest = ([], rest)" by (rule execAll_none)
next
  assume "CHR ''('' \<notin> set rest"
  with execFrom_none [OF execAt_not_open(1) execAt_not_open(3)]
  have "execFrom False valueSetRegex1 rest = None" by blast
  then show "execAll False valueSetRegex1 rest = ([], rest)" by (rule execAll_none)
qed


theorem tuple_extraction_flat_witness:
  "flatBalanced (quote # ''(555) 123-4567'' @ [quote])
   \<and> CHR ''('' \<notin> set '' ''
   \<and> execAll False valueSetRegex2 ('' ('' @ quote # ''(555) 123-4567'' @ [quote] @ '');'')
       = ([('' '', ''('' @ quote # ''(555) 123-4567'' @ [quote] @ '')'',
            quote # ''(555) 123-4567'' @ [quote])], '';'')
   \<and> (\<exists>g. trim g = quote # ''(555) 123-4567'' @ [quote]
        \<and> execAll False valueSetRegex1 ('' ('' @ quote # ''(555) 123-4567'' @ [quote] @ '');'')
            = ([('' '', ''('' @ quote # ''(555) 123-4567'' @ [quote] @ '')'', g)], '';''))"
proof -
  have f: "flatBalanced (quote # ''(555) 123-4567'' @ [quote])" by code_simp
  have l: "CHR ''('' \<notin> set '' ''" by simp
  have r: "CHR ''('' \<notin> set '';''" by simp
  have t: "trim (quote # ''(555) 123-4567'' @ [quote]) = quote # ''(555) 123-4567'' @ [quote]"
    by code_simp
  note T = tuple_extraction_flat [OF f l, of "'';''"]
  from T r have e2: "execAll False valueSetRegex2 '';'' = ([], '';'')"
    and e1: "execAll False valueSetRegex1 '';'' = ([], '';'')"
    by blast+
  from T have a: "execAll False valueSetRegex2 ('' ('' @ quote # ''(555) 123-4567'' @ [quote] @ '');'')
       = ([('' '', ''('' @ quote # ''(555) 123-4567'' @ [quote] @ '')'',
            quote # ''(555) 123-4567'' @ [quote])], '';'')"
    by (simp only: e2 append_Cons append_Nil append_assoc prod.case)
  from T obtain g where g: "trim g = trim (quote # ''(555) 123-4567'' @ [quote])"
    "execAll False valueSetRegex1 ('' '' @ ''('' @ (quote # ''(555) 123-4567'' @ [quote]) @ '')'' @ '';'') =
       (case execAll False valueSetRegex1 '';'' of
          (ms, tail) \<Rightarrow> (('' '', ''('' @ (quote # ''(555) 123-4567'' @ [quote]) @ '')'', g) # ms, tail))"
    by blast
  from g(2) have b: "execAll False valueSetRegex1 ('' ('' @ quote # ''(555) 123-4567'' @ [quote] @ '');'')
            = ([('' '', ''('' @ quote # ''(555) 123-4567'' @ [quote] @ '')'', g)], '';'')"
    by (simp only: e1 append_Cons append_Nil append_assoc prod.case)
  from g(1) t have c: "trim g = quote # ''(555) 123-4567'' @ [quote]" by simp
  from b c have "\<exists>g. trim g = quote # ''(555) 123-4567'' @ [quote]
        \<and> execAll False valueSetRegex1 ('' ('' @ quote # ''(555) 123-4567'' @ [quote] @ '');'')
            = ([('' '', ''('' @ quote # ''(555) 123-4567'' @ [quote] @ '')'', g)], '';'')"
    by blast
  with f l a show ?thesis by (intro conjI)
qed

text \<open>
  The claim's general half fails in both variants: a closing parenthesis inside a quoted
  string closes the tuple. The row \<^verbatim>\<open>(1, 'a)b')\<close> is cut after \<^verbatim>\<open>'a\<close>, and the rest of the
  row is left behind the last tuple.
\<close>

theorem tuple_extraction_quoted_parenthesis_counterexample:
  "execAll False valueSetRegex2 ('' (1, '' @ quote # ''a)b'' @ [quote] @ '');'')
     = ([('' '', ''(1, '' @ quote # ''a)'', ''1, '' @ quote # ''a'')], ''b'' @ quote # '');'')
   \<and> execAll False valueSetRegex1 ('' (1, '' @ quote # ''a)b'' @ [quote] @ '');'')
     = ([('' '', ''(1, '' @ quote # ''a)'', ''1, '' @ quote # ''a'')], ''b'' @ quote # '');'')
   \<and> \<not> inQuotesAfter (''1, '' @ quote # ''a)b'' @ [quote])
   \<and> inQuotesAfter (''1, '' @ quote # ''a'')"
  by code_simp

lemma trim_decompose:
  "\<exists>w1 w2. list_all isWhiteSpace w1 \<and> list_all isWhiteSpace w2 \<and> s = w1 @ trim s @ w2"
proof -
  define t where "t = dropWhile isWhiteSpace s"
  have a: "s = takeWhile isWhiteSpace s @ t" by (simp add: t_def)
  have "rev (takeWhile isWhiteSpace (rev t) @ dropWhile isWhiteSpace (rev t)) = t"
    by (simp only: takeWhile_dropWhile_id rev_rev_ident)
  then have "t = rev (dropWhile isWhiteSpace (rev t)) @ rev (takeWhile isWhiteSpace (rev t))"
    by (simp only: rev_append)
  then have b: "t = trim s @ rev (takeWhile isWhiteSpace (rev t))"
    by (simp only: trim_def trimStart_def trimEnd_def t_def)
  have c: "list_all isWhiteSpace (takeWhile isWhiteSpace s)"
    by (simp add: list_all_iff) (meson set_takeWhileD)
  have d: "list_all isWhiteSpace (rev (takeWhile isWhiteSpace (rev t)))"
    by (simp add: list_all_iff) (meson set_takeWhileD)
  from a b have "s = takeWhile isWhiteSpace s @ trim s @ rev (takeWhile isWhiteSpace (rev t))"
    by simp
  with c d show ?thesis by blast
qed

lemma parseLoop_plain_append:
  "\<forall>x\<in>set w. x \<noteq> quote \<and> x \<noteq> CHR '','' \<Longrightarrow>
   parseLoop (w @ s) v c q qc = parseLoop s v (c @ w) q qc"
  by (induction w arbitrary: c) auto

lemma whiteSpaces_not_special:
  "list_all isWhiteSpace w \<Longrightarrow> \<forall>x\<in>set w. x \<noteq> quote \<and> x \<noteq> CHR '',''"
  by (auto simp: list_all_iff)

lemma trim_lead: "list_all isWhiteSpace w \<Longrightarrow> trim (w @ u) = trim u"
  using trim_pad [of w "[]" u] by simp

lemma trim_trail: "list_all isWhiteSpace w \<Longrightarrow> trim (u @ w) = trim u"
  using trim_pad [of "[]" w u] by simp

lemma parseLoop_pad:
  assumes w: "list_all isWhiteSpace w"
  shows "(case parseLoop s v (w @ c) q qc of (v1, c1, r1) \<Rightarrow> (v1, trim c1, r1))
       = (case parseLoop s v c q qc of (v2, c2, r2) \<Rightarrow> (v2, trim c2, r2))"
proof (induction s v c q qc rule: parseLoop.induct)
  case (1 vs cur inQ quoteChar)
  then show ?case by (simp add: trim_lead [OF w])
next
  case (2 x rest vs cur inQ quoteChar)
  consider (openq) "x = quote" "\<not> inQ"
    | (escq) rest' where "x = quote" "inQ" "quoteChar = Some quote" "rest = quote # rest'"
    | (closeq) "x = quote" "inQ" "quoteChar = Some quote" "rest = [] \<or> hd rest \<noteq> quote"
    | (comma) "x = CHR '',''" "\<not> inQ"
    | (other) "\<not> (x = quote \<and> \<not> inQ)" "\<not> (x = quote \<and> inQ \<and> quoteChar = Some quote)"
        "\<not> (x = CHR '','' \<and> \<not> inQ)"
    by (cases rest) auto
  then show ?case
  proof cases
    case openq
    have E: "parseLoop (x # rest) vs c0 inQ quoteChar
        = parseLoop rest vs (c0 @ [x]) True (Some quote)" for c0
      using openq by simp
    have "(case parseLoop rest vs (w @ cur @ [x]) True (Some quote) of (v1, c1, r1) \<Rightarrow> (v1, trim c1, r1))
        = (case parseLoop rest vs (cur @ [x]) True (Some quote) of (v1, c1, r1) \<Rightarrow> (v1, trim c1, r1))"
      using openq by (intro "2.IH"(1)) auto
    then show ?thesis by (simp only: E append_assoc)
  next
    case escq
    have E: "parseLoop (x # rest) vs c0 inQ quoteChar
        = parseLoop rest' vs (c0 @ [quote, quote]) inQ quoteChar" for c0
      using escq by simp
    have "(case parseLoop rest' vs (w @ cur @ [quote, quote]) inQ quoteChar of (v1, c1, r1) \<Rightarrow> (v1, trim c1, r1))
        = (case parseLoop rest' vs (cur @ [quote, quote]) inQ quoteChar of (v1, c1, r1) \<Rightarrow> (v1, trim c1, r1))"
      using escq by (intro "2.IH"(3)) auto
    then show ?thesis by (simp only: E append_assoc)
  next
    case closeq
    have E: "parseLoop (x # rest) vs c0 inQ quoteChar
        = parseLoop rest vs (c0 @ [x]) False None" for c0
      using closeq by (cases rest) auto
    have "(case parseLoop rest vs (w @ cur @ [x]) False None of (v1, c1, r1) \<Rightarrow> (v1, trim c1, r1))
        = (case parseLoop rest vs (cur @ [x]) False None of (v1, c1, r1) \<Rightarrow> (v1, trim c1, r1))"
    proof (cases rest)
      case Nil
      with closeq show ?thesis by (intro "2.IH"(2)) auto
    next
      case (Cons c' rest')
      with closeq show ?thesis by (intro "2.IH"(4) [of c' rest']) auto
    qed
    then show ?thesis by (simp only: E append_assoc)
  next
    case comma
    have E: "parseLoop (x # rest) vs c0 inQ quoteChar
        = parseLoop rest (vs @ [trim c0]) [] inQ quoteChar" for c0
      using comma by simp
    show ?thesis by (simp only: E trim_lead [OF w])
  next
    case other
    have E: "parseLoop (x # rest) vs c0 inQ quoteChar
        = parseLoop rest vs (c0 @ [x]) inQ quoteChar" for c0
      using other by auto
    have "(case parseLoop rest vs (w @ cur @ [x]) inQ quoteChar of (v1, c1, r1) \<Rightarrow> (v1, trim c1, r1))
        = (case parseLoop rest vs (cur @ [x]) inQ quoteChar of (v1, c1, r1) \<Rightarrow> (v1, trim c1, r1))"
      using other by (intro "2.IH"(6)) auto
    then show ?thesis by (simp only: E append_assoc)
  qed
qed

lemma parseValues_pad:
  assumes w1: "list_all isWhiteSpace w1" and w2: "list_all isWhiteSpace w2"
  shows "parseValues (w1 @ s @ w2) = parseValues s"
proof -
  obtain v c q qc where s: "parseLoop s [] [] False None = (v, c, q, qc)"
    by (cases "parseLoop s [] [] False None") auto
  obtain v' c' q' qc' where s': "parseLoop s [] w1 False None = (v', c', q', qc')"
    by (cases "parseLoop s [] w1 False None") auto
  from parseLoop_pad [OF w1, of s "[]" "[]" False None] s s'
  have eq: "v' = v" "trim c' = trim c" by auto
  have "w2 = [] \<or> hd w2 \<noteq> quote" using w2 by (cases w2) auto
  then have "parseLoop ((w1 @ s) @ w2) [] [] False None
      = (case parseLoop (w1 @ s) [] [] False None of (a, b, c, d) \<Rightarrow> parseLoop w2 a b c d)"
    by (rule parseLoop_append)
  also have "parseLoop (w1 @ s) [] [] False None = (v', c', q', qc')"
    using parseLoop_plain_append [OF whiteSpaces_not_special [OF w1], of s "[]" "[]" False None] s'
    by simp
  finally have "parseLoop (w1 @ s @ w2) [] [] False None = (v', c' @ w2, q', qc')"
    using parseLoop_plain [OF whiteSpaces_not_special [OF w2]] by simp
  then have "parseValues (w1 @ s @ w2) = v' @ [trim (c' @ w2)]" by (rule parseValues_push)
  also have "\<dots> = v @ [trim c]" using eq by (simp add: trim_trail [OF w2])
  also have "\<dots> = parseValues s" using parseValues_push [OF s] by simp
  finally show ?thesis .
qed

lemma parseValues_trim: "parseValues (trim s) = parseValues s"
proof -
  from trim_decompose [of s] obtain w1 w2 where
    "list_all isWhiteSpace w1" "list_all isWhiteSpace w2" "s = w1 @ trim s @ w2" by blast
  with parseValues_pad [of w1 w2 "trim s"] show ?thesis by simp
qed

lemma parseValues_comma_split:
  assumes "\<not> inQuotesAfter x"
  shows "parseValues (x @ '','' @ r) = parseValues x @ parseValues r"
proof -
  obtain v c q qc where x: "parseLoop x [] [] False None = (v, c, q, qc)"
    by (cases "parseLoop x [] [] False None") auto
  with assms have q: "\<not> q" by (simp add: inQuotesAfter_def)
  obtain v' c' q' qc' where r: "parseLoop r [] [] False None = (v', c', q', qc')"
    by (cases "parseLoop r [] [] False None") auto
  have "parseLoop (x @ ('','' @ r)) [] [] False None
      = (case parseLoop x [] [] False None of (a, b, c, d) \<Rightarrow> parseLoop ('','' @ r) a b c d)"
    by (rule parseLoop_append) simp
  then have a: "parseLoop (x @ '','' @ r) [] [] False None = parseLoop r ((v @ [trim c]) @ []) [] False qc"
    using x q by simp
  have b: "parseLoop r ((v @ [trim c]) @ []) [] False qc
      = (case parseLoop r [] [] False qc of (a, b, c', d) \<Rightarrow> ((v @ [trim c]) @ a, b, c', d))"
    by (rule parseLoop_prefix_values)
  from parseLoop_quoteChar [of False qc None r "[]" "[]"] r
  obtain qc'' where c: "parseLoop r [] [] False qc = (v', c', q', qc'')"
    by (cases "parseLoop r [] [] False qc") auto
  from a b c have "parseLoop (x @ '','' @ r) [] [] False None = ((v @ [trim c]) @ v', c', q', qc'')"
    by simp
  then have "parseValues (x @ '','' @ r) = ((v @ [trim c]) @ v') @ [trim c']"
    by (rule parseValues_push)
  with parseValues_push [OF x] parseValues_push [OF r] show ?thesis by simp
qed

lemma literal_not_blank:
  "quote # body @ [quote] \<noteq> [] \<and> \<not> isWhiteSpace (hd (quote # body @ [quote]))
     \<and> \<not> isWhiteSpace (last (quote # body @ [quote]))"
  by simp

lemma parseValues_literal:
  assumes b: "quotedBody body" and w1: "list_all isWhiteSpace w1" and w2: "list_all isWhiteSpace w2"
  shows "parseValues (w1 @ (quote # body @ [quote]) @ w2) = [quote # body @ [quote]]"
    and "\<not> inQuotesAfter (w1 @ (quote # body @ [quote]) @ w2)"
proof -
  have lit: "parseLoop (quote # body @ [quote]) [] c False None
      = ([], c @ quote # body @ [quote], False, None)" for c
    using parseLoop_literal [OF b, of "[]" "[]" c None] by simp
  have "trim (quote # body @ [quote]) = quote # body @ [quote]"
    by (rule trim_id) simp_all
  moreover from lit [of "[]"]
  have "parseLoop (quote # body @ [quote]) [] [] False None
      = ([], quote # body @ [quote], False, None)" by simp
  then have "parseValues (quote # body @ [quote]) = [] @ [trim (quote # body @ [quote])]"
    by (rule parseValues_push)
  ultimately have "parseValues (quote # body @ [quote]) = [quote # body @ [quote]]" by simp
  with parseValues_pad [OF w1 w2, of "quote # body @ [quote]"]
  show "parseValues (w1 @ (quote # body @ [quote]) @ w2) = [quote # body @ [quote]]" by simp
  have "w2 = [] \<or> hd w2 \<noteq> quote" using w2 by (cases w2) auto
  then have "parseLoop (quote # body @ quote # w2) [] w1 False None
      = parseLoop w2 [] (w1 @ quote # body @ [quote]) False None"
    using parseLoop_literal [OF b, of w2 "[]" w1 None] by simp
  then have "parseLoop (w1 @ (quote # body @ [quote]) @ w2) [] [] False None
      = ([], (w1 @ quote # body @ [quote]) @ w2, False, None)"
    using parseLoop_plain_append [OF whiteSpaces_not_special [OF w1], of "(quote # body @ [quote]) @ w2" "[]" "[]" False None]
      parseLoop_plain [OF whiteSpaces_not_special [OF w2], of "[]" "w1 @ quote # body @ [quote]" False None]
    by simp
  then show "\<not> inQuotesAfter (w1 @ (quote # body @ [quote]) @ w2)"
    by (simp add: inQuotesAfter_def)
qed

lemma quotedBody_escaped:
  "quotedBody a \<Longrightarrow> quotedBody b \<Longrightarrow> quotedBody (a @ [quote, quote] @ b)"
  by (cases b) (simp_all add: quotedBody_append)


section \<open>Fields and the text written\<close>

lemma sublist_trim: "sublist (trim s) s"
proof -
  from trim_decompose [of s] obtain w1 w2 where "s = w1 @ trim s @ w2" by blast
  then show ?thesis unfolding sublist_def by blast
qed

lemma sublist_mid: "sublist xs ys \<Longrightarrow> sublist xs (ps @ ys @ ss)"
  by (meson sublist_appendI sublist_order.order_trans)

lemma parseLoop_sublist:
  "parseLoop s v c q qc = (v', c', q', qc') \<Longrightarrow>
   (\<exists>new. v' = v @ new \<and> (\<forall>f\<in>set new. sublist f (c @ s))) \<and> sublist c' (c @ s)"
proof (induction s v c q qc arbitrary: v' c' q' qc' rule: parseLoop.induct)
  case (1 vs cur inQ quoteChar)
  then show ?case by simp
next
  case (2 x rest vs cur inQ quoteChar)
  consider (openq) "x = quote" "\<not> inQ"
    | (escq) rest' where "x = quote" "inQ" "quoteChar = Some quote" "rest = quote # rest'"
    | (closeq) "x = quote" "inQ" "quoteChar = Some quote" "rest = [] \<or> hd rest \<noteq> quote"
    | (comma) "x = CHR '',''" "\<not> inQ"
    | (other) "\<not> (x = quote \<and> \<not> inQ)" "\<not> (x = quote \<and> inQ \<and> quoteChar = Some quote)"
        "\<not> (x = CHR '','' \<and> \<not> inQ)"
    by (cases rest) auto
  then show ?case
  proof cases
    case openq
    have "parseLoop rest vs (cur @ [x]) True (Some quote) = (v', c', q', qc')"
      using openq "2.prems" by simp
    with openq have "(\<exists>new. v' = vs @ new \<and> (\<forall>f\<in>set new. sublist f ((cur @ [x]) @ rest)))
        \<and> sublist c' ((cur @ [x]) @ rest)"
      by (intro "2.IH"(1)) auto
    then show ?thesis by simp
  next
    case escq
    have "parseLoop rest' vs (cur @ [quote, quote]) inQ quoteChar = (v', c', q', qc')"
      using escq "2.prems" by simp
    with escq have "(\<exists>new. v' = vs @ new \<and> (\<forall>f\<in>set new. sublist f ((cur @ [quote, quote]) @ rest')))
        \<and> sublist c' ((cur @ [quote, quote]) @ rest')"
      by (intro "2.IH"(3)) auto
    then show ?thesis using escq by simp
  next
    case closeq
    have E: "parseLoop rest vs (cur @ [x]) False None = (v', c', q', qc')"
      using closeq "2.prems" by (cases rest) auto
    have "(\<exists>new. v' = vs @ new \<and> (\<forall>f\<in>set new. sublist f ((cur @ [x]) @ rest)))
        \<and> sublist c' ((cur @ [x]) @ rest)"
    proof (cases rest)
      case Nil
      with closeq E show ?thesis by (intro "2.IH"(2)) auto
    next
      case (Cons d rest')
      with closeq E show ?thesis by (intro "2.IH"(4) [of d rest']) auto
    qed
    then show ?thesis by simp
  next
    case comma
    have "parseLoop rest (vs @ [trim cur]) [] inQ quoteChar = (v', c', q', qc')"
      using comma "2.prems" by simp
    with comma have "(\<exists>new. v' = (vs @ [trim cur]) @ new \<and> (\<forall>f\<in>set new. sublist f ([] @ rest)))
        \<and> sublist c' ([] @ rest)"
      by (intro "2.IH"(5)) auto
    then obtain new where new: "v' = (vs @ [trim cur]) @ new" "\<forall>f\<in>set new. sublist f rest"
      and c': "sublist c' rest" by auto
    have a: "sublist f rest \<Longrightarrow> sublist f (cur @ x # rest)" for f
      using sublist_mid [of f rest "cur @ [x]" "[]"] by simp
    have b: "sublist (trim cur) (cur @ x # rest)"
      using sublist_trim sublist_append_rightI by (rule sublist_order.order_trans)
    from new a b have "v' = vs @ (trim cur # new) \<and> (\<forall>f\<in>set (trim cur # new). sublist f (cur @ x # rest))"
      by simp
    then have "\<exists>new. v' = vs @ new \<and> (\<forall>f\<in>set new. sublist f (cur @ x # rest))" by blast
    with a [OF c'] show ?thesis by simp
  next
    case other
    have "parseLoop rest vs (cur @ [x]) inQ quoteChar = (v', c', q', qc')"
      using other "2.prems" by auto
    with other have "(\<exists>new. v' = vs @ new \<and> (\<forall>f\<in>set new. sublist f ((cur @ [x]) @ rest)))
        \<and> sublist c' ((cur @ [x]) @ rest)"
      by (intro "2.IH"(6)) auto
    then show ?thesis by simp
  qed
qed

lemma parseValues_sublist: "f \<in> set (parseValues s) \<Longrightarrow> sublist f s"
proof -
  assume f: "f \<in> set (parseValues s)"
  obtain v c q qc where p: "parseLoop s [] [] False None = (v, c, q, qc)"
    by (cases "parseLoop s [] [] False None") auto
  from parseLoop_sublist [OF p] have v: "\<forall>f\<in>set v. sublist f s" and c: "sublist c s" by auto
  from sublist_trim c have "sublist (trim c) s" by (rule sublist_order.order_trans)
  with v f parseValues_push [OF p] show ?thesis by auto
qed

lemma sublist_join: "v \<in> set vs \<Longrightarrow> sublist v (join sep vs)"
proof (induction sep vs rule: join.induct)
  case (1 sep)
  then show ?case by simp
next
  case (2 sep x)
  then show ?case by simp
next
  case (3 sep x y ys)
  show ?case
  proof (cases "v = x")
    case True
    then show ?thesis by simp
  next
    case False
    with 3 have "sublist v (join sep (y # ys))" by simp
    from sublist_mid [OF this, of "x @ sep" "[]"] show ?thesis by simp
  qed
qed

lemma sublist_reconstruct:
  "length outs = length ms \<Longrightarrow> v \<in> set outs \<Longrightarrow> sublist v (reconstruct ms outs tail)"
proof (induction ms outs tail rule: reconstruct.induct)
  case (1 newValueSets tail)
  then show ?case by simp
next
  case (2 gap fullMatch group1 ms tail)
  then show ?case by simp
next
  case (3 gap fullMatch group1 ms w newValueSets tail)
  show ?case
  proof (cases "v = w")
    case True
    then show ?thesis by simp
  next
    case False
    with 3 have "sublist v (reconstruct ms newValueSets tail)" by simp
    from sublist_mid [OF this, of "gap @ w" "[]"] show ?thesis by simp
  qed
qed

lemma valueSet2_keeps_field:
  fixes st :: "'a run_scheme"
  assumes k: "k < length (parseValues g)" and c: "k \<notin> set (columnIndicesToAnonymize cfg)"
    and f: "sublist g full"
  shows "sublist (parseValues g ! k) (fst (valueSet2 cfg full g st))"
proof (cases "tupleModified2 (columnIndicesToAnonymize cfg) (parseValues g)")
  case True
  with valueSet2_cases [of cfg g full st] obtain vals' st' where
    v: "valueSet2 cfg full g st = (''('' @ join '', '' vals' @ '')'', True, st')"
    and l: "length vals' = length (parseValues g)"
    and u: "\<forall>j<length (parseValues g). j \<notin> set (columnIndicesToAnonymize cfg) \<longrightarrow>
              vals' ! j = parseValues g ! j"
    by blast
  from u k c have "vals' ! k = parseValues g ! k" by simp
  moreover from k l have "vals' ! k \<in> set vals'" by simp
  ultimately have "sublist (parseValues g ! k) (join '', '' vals')" by (metis sublist_join)
  from sublist_mid [OF this, of "''(''" "'')''"] v show ?thesis by simp
next
  case False
  with valueSet2_cases [of cfg g full st] have "fst (valueSet2 cfg full g st) = full" by blast
  moreover from k have "sublist (parseValues g ! k) g" by (intro parseValues_sublist) simp
  ultimately show ?thesis using f by (metis sublist_order.order_trans)
qed

lemma valueSet1_keeps_field:
  fixes st :: "'a run_scheme"
  assumes k: "k < length (parseValues g)" and c: "k \<notin> set (columnIndicesToAnonymize cfg)"
    and f: "sublist g full"
  shows "sublist (parseValues g ! k) (fst (valueSet1 cfg n full g st))"
proof (cases "tupleModified1 (columnIndicesToAnonymize cfg) (parseValues (trim g))")
  case True
  with valueSet1_cases [of cfg g n full st] obtain vals' st' where
    v: "valueSet1 cfg n full g st = (''( '' @ join '', '' vals' @ '' )'', True, st')"
    and l: "length vals' = length (parseValues (trim g))"
    and u: "\<forall>j<length (parseValues (trim g)).
              j \<notin> set (columnIndicesToAnonymize cfg) \<or> \<not> safetyCheck (parseValues (trim g) ! j) \<longrightarrow>
              vals' ! j = parseValues (trim g) ! j"
    by blast
  from u k c have "vals' ! k = parseValues g ! k" by (simp add: parseValues_trim)
  moreover from k l have "vals' ! k \<in> set vals'" by (simp add: parseValues_trim)
  ultimately have "sublist (parseValues g ! k) (join '', '' vals')" by (metis sublist_join)
  from sublist_mid [OF this, of "''( ''" "'' )''"] v show ?thesis by simp
next
  case False
  with valueSet1_cases [of cfg g n full st] have "fst (valueSet1 cfg n full g st) = full" by blast
  moreover from k have "sublist (parseValues g ! k) g" by (intro parseValues_sublist) simp
  ultimately show ?thesis using f by (metis sublist_order.order_trans)
qed

lemma valueSetLoop2_mem:
  fixes st :: "'a run_scheme"
  shows "(gap, full, g) \<in> set ms \<Longrightarrow>
   \<exists>st' :: 'a run_scheme. fst (valueSet2 cfg full g st') \<in> set (fst (valueSetLoop2 cfg ms st))"
proof (induction ms arbitrary: st)
  case Nil
  then show ?case by simp
next
  case (Cons m ms)
  show ?case
  proof (cases "m = (gap, full, g)")
    case True
    then show ?thesis by (auto simp: valueSetLoop2_Cons Let_def)
  next
    case False
    with Cons.prems have "(gap, full, g) \<in> set ms" by simp
    from Cons.IH [OF this] show ?thesis by (auto simp: valueSetLoop2_Cons Let_def)
  qed
qed

lemma valueSetLoop1_mem:
  fixes st :: "'a run_scheme"
  shows "(gap, full, g) \<in> set ms \<Longrightarrow>
   \<exists>st' :: 'a run_scheme. fst (valueSet1 cfg n full g st') \<in> set (fst (valueSetLoop1 cfg n ms st))"
proof (induction ms arbitrary: st)
  case Nil
  then show ?case by simp
next
  case (Cons m ms)
  show ?case
  proof (cases "m = (gap, full, g)")
    case True
    then show ?thesis by (auto simp: valueSetLoop1_Cons Let_def)
  next
    case False
    with Cons.prems have "(gap, full, g) \<in> set ms" by simp
    from Cons.IH [OF this] show ?thesis by (auto simp: valueSetLoop1_Cons Let_def)
  qed
qed

lemma execFrom_parts:
  "execFrom ic R s = Some (gap, full, g, rest) \<Longrightarrow> s = gap @ full @ rest \<and> sublist g full"
proof (induction s arbitrary: gap)
  case Nil
  obtain lead grp trail where R: "R = (lead, grp, trail)" by (cases R) auto
  from Nil obtain a b c where e: "execAt ic (lead, grp, trail) [] = Some (full, g, rest)" "gap = []"
    by (auto simp: R split: option.splits)
  from execAt_lang [OF e(1)] e(2) show ?case by (auto simp: sublist_def)
next
  case (Cons c s)
  obtain lead grp trail where R: "R = (lead, grp, trail)" by (cases R) auto
  show ?case
  proof (cases "execAt ic R (c # s)")
    case (Some r)
    with Cons.prems have e: "execAt ic (lead, grp, trail) (c # s) = Some (full, g, rest)" "gap = []"
      by (auto simp: R)
    from execAt_lang [OF e(1)] obtain p q where "c # s = p @ g @ q @ rest" "full = p @ g @ q"
      by blast
    with e(2) show ?thesis by (auto simp: sublist_def)
  next
    case None
    with Cons.prems obtain gap' where g: "execFrom ic R s = Some (gap', full, g, rest)" "gap = c # gap'"
      by (auto split: option.splits)
    from Cons.IH [OF g(1)] g(2) show ?thesis by simp
  qed
qed

lemma execAll_parts:
  "(gap, full, g) \<in> set (fst (execAll ic R s)) \<Longrightarrow> sublist full s \<and> sublist g full"
proof (induction ic R s rule: execAll.induct)
  case (1 ic R s)
  show ?case
  proof (cases "execFrom ic R s")
    case None
    with "1.prems" show ?thesis by (simp add: execAll_none)
  next
    case (Some r)
    obtain gap' full' g' rest where r: "r = (gap', full', g', rest)" by (cases r) auto
    from execFrom_parts [OF Some [unfolded r]] have s: "s = gap' @ full' @ rest" "sublist g' full'"
      by auto
    show ?thesis
    proof (cases "length rest < length s")
      case True
      from execAll_step [OF Some [unfolded r] True]
      have "set (fst (execAll ic R s)) = insert (gap', full', g') (set (fst (execAll ic R rest)))"
        by (simp add: split_beta)
      with "1.prems" consider "(gap, full, g) = (gap', full', g')"
        | "(gap, full, g) \<in> set (fst (execAll ic R rest))" by auto
      then show ?thesis
      proof cases
        case 1
        with s show ?thesis by (auto simp: sublist_def)
      next
        case 2
        have "sublist full rest \<and> sublist g full"
          using Some r True 2 by (intro "1.IH" [of r gap' "(full', g', rest)" full' "(g', rest)" g' rest]) auto
        moreover have "sublist rest s"
          using sublist_append_leftI [of rest "gap' @ full'"] s(1) by simp
        ultimately show ?thesis by (metis sublist_order.order_trans)
      qed
    next
      case False
      with Some r have "execAll ic R s = ([], s)" by (subst execAll.simps) simp
      with "1.prems" show ?thesis by simp
    qed
  qed
qed

lemma processStatement2_contains:
  fixes st :: "'a run_scheme"
  assumes t: "(gap, full, g) \<in> set (tuples2 statement)" and k: "k < length (parseValues g)"
    and c: "k \<notin> set (columnIndicesToAnonymize cfg)"
  shows "\<exists>out. written (processStatement2 cfg statement st) = written st @ [out]
           \<and> sublist (parseValues g ! k) out"
proof -
  let ?f = "parseValues g ! k"
  let ?part = "drop (nat (indexOf (toUpperCase statement) ''VALUES'') + length ''VALUES'') statement"
  from t have found: "indexOf (toUpperCase statement) ''VALUES'' \<noteq> - 1"
    and m: "(gap, full, g) \<in> set (fst (execAll False valueSetRegex2 ?part))"
    by (auto simp: tuples2_def Let_def split: if_splits)
  from execAll_parts [OF m] have full: "sublist full ?part" and gf: "sublist g full" by auto
  from k have "sublist ?f g" by (intro parseValues_sublist) simp
  with gf full sublist_drop [of _ statement] have "sublist ?f statement"
    by (meson sublist_order.order_trans)
  with sublist_append_rightI [of statement "''\<newline>''"]
  have plain: "sublist ?f (statement @ ''\<newline>'')" by (rule sublist_order.order_trans [rotated])
  show ?thesis
  proof (cases "matches True (insertRegex2 (targetTableName cfg)) statement = []")
    case True
    with plain show ?thesis by (simp add: processStatement2_def Let_def writerWrite_def)
  next
    case matched: False
    let ?st = "st\<lparr>processedStatements := processedStatements st + 1\<rparr>"
    obtain ms tail where ex: "execAll False valueSetRegex2 ?part = (ms, tail)"
      by (cases "execAll False valueSetRegex2 ?part") auto
    obtain nvs om st1 where loop: "valueSetLoop2 cfg ms ?st = (nvs, om, st1)"
      by (cases "valueSetLoop2 cfg ms ?st") auto
    have w: "written st1 = written ?st"
      using valueSetLoop2_keeps [of written cfg ms ?st] loop by simp
    from m ex have "(gap, full, g) \<in> set ms" by simp
    from valueSetLoop2_mem [OF this, of cfg ?st] loop obtain st' :: "'a run_scheme"
      where "fst (valueSet2 cfg full g st') \<in> set nvs" by auto
    then have "sublist (fst (valueSet2 cfg full g st')) (join [CHR '','', CHR 0x0A, CHR 0x09] nvs)"
      by (rule sublist_join)
    with valueSet2_keeps_field [OF k c gf, of st']
    have "sublist ?f (join [CHR '','', CHR 0x0A, CHR 0x09] nvs)"
      by (rule sublist_order.order_trans)
    from sublist_mid [OF this, of "take (nat (indexOf (toUpperCase statement) ''VALUES'') + length ''VALUES'') statement @ '' ''"
        "'';'' @ [CHR 0x0A, CHR 0x0A]"]
    have modified: "sublist ?f (take (nat (indexOf (toUpperCase statement) ''VALUES'') + length ''VALUES'') statement
        @ '' '' @ join [CHR '','', CHR 0x0A, CHR 0x09] nvs @ '';'' @ [CHR 0x0A, CHR 0x0A])"
      by simp
    show ?thesis
    proof (cases om)
      case True
      with matched found ex loop w modified show ?thesis
        by (simp add: processStatement2_def Let_def writerWrite_def)
    next
      case False
      with matched found ex loop w plain show ?thesis
        by (simp add: processStatement2_def Let_def writerWrite_def)
    qed
  qed
qed

lemma processStatement1_contains:
  fixes st :: "'a run_scheme"
  assumes t: "(gap, full, g) \<in> set (tuples1 statement)" and k: "k < length (parseValues g)"
    and c: "k \<notin> set (columnIndicesToAnonymize cfg)"
  shows "\<exists>out. written (processStatement1 cfg statement n st) = written st @ [out]
           \<and> sublist (parseValues g ! k) out"
proof -
  let ?f = "parseValues g ! k"
  from t obtain i where found: "search True valuesRegex1 statement = Some i"
    and m: "(gap, full, g) \<in> set (fst (execAll False valueSetRegex1 (drop i statement)))"
    by (cases "search True valuesRegex1 statement") (auto simp: tuples1_def)
  from execAll_parts [OF m] have full: "sublist full (drop i statement)" and gf: "sublist g full"
    by auto
  from k have "sublist ?f g" by (intro parseValues_sublist) simp
  with gf full sublist_drop [of i statement] have plain: "sublist ?f statement"
    by (meson sublist_order.order_trans)
  show ?thesis
  proof (cases "search True (insertRegex1 (targetTableName cfg)) statement = None")
    case True
    with plain show ?thesis by (simp add: processStatement1_def Let_def writerWrite_def)
  next
    case matched: False
    let ?st = "st\<lparr>processedStatements := processedStatements st + 1\<rparr>"
    obtain ms tail where ex: "execAll False valueSetRegex1 (drop i statement) = (ms, tail)"
      by (cases "execAll False valueSetRegex1 (drop i statement)") auto
    obtain nvs om st1 where loop: "valueSetLoop1 cfg n ms ?st = (nvs, om, st1)"
      by (cases "valueSetLoop1 cfg n ms ?st") auto
    have w: "written st1 = written ?st"
      using valueSetLoop1_keeps [of written cfg n ms ?st] loop by simp
    have len: "length nvs = length ms" using valueSetLoop1_length [of cfg n ms ?st] loop by simp
    from m ex have "(gap, full, g) \<in> set ms" by simp
    from valueSetLoop1_mem [OF this, of cfg n ?st] loop obtain st' :: "'a run_scheme"
      where "fst (valueSet1 cfg n full g st') \<in> set nvs" by auto
    with len have "sublist (fst (valueSet1 cfg n full g st')) (reconstruct ms nvs tail)"
      by (rule sublist_reconstruct)
    with valueSet1_keeps_field [OF k c gf, of n st']
    have "sublist ?f (reconstruct ms nvs tail)"
      by (rule sublist_order.order_trans)
    from sublist_mid [OF this, of "take i statement" "[]"]
    have modified: "sublist ?f (take i statement @ reconstruct ms nvs tail)" by simp
    show ?thesis
    proof (cases om)
      case True
      with matched found ex loop w modified show ?thesis
        by (simp add: processStatement1_def Let_def writerWrite_def)
    next
      case False
      with matched found ex loop w plain show ?thesis
        by (simp add: processStatement1_def Let_def writerWrite_def)
    qed
  qed
qed

text \<open>
  Claim C3. Inside a quoted string the tokenizer reads two consecutive quotes as one
  step, keeps both in the current field and stays inside the string. So a literal whose
  body has an escaped quote (\<open>a\<close> and \<open>b\<close> are bodies in which every quote is doubled) is one
  field, with its text unchanged, wherever it stands in the tuple interior: alone, first,
  last, or between two commas, with any whitespace around it. And when the index of that
  field in a tuple of a statement is not requested, the text that either variant writes
  for the statement contains the literal.
\<close>

theorem escaped_quote_round_trip:
  fixes st1 :: "'a run_scheme" and st2 :: "'b run_scheme"
  assumes "quotedBody a" and "quotedBody b"
    and "list_all isWhiteSpace w1" and "list_all isWhiteSpace w2"
    and "\<not> inQuotesAfter x"
  defines "lit \<equiv> quote # a @ [quote, quote] @ b @ [quote]"
  shows
    "parseLoop (quote # quote # r) v c True (Some quote)
       = parseLoop r v (c @ [quote, quote]) True (Some quote)
     \<and> parseValues (w1 @ lit @ w2) = [lit]
     \<and> parseValues (w1 @ lit @ w2 @ '','' @ y) = lit # parseValues y
     \<and> parseValues (x @ '','' @ w1 @ lit @ w2) = parseValues x @ [lit]
     \<and> parseValues (x @ '','' @ w1 @ lit @ w2 @ '','' @ y) = parseValues x @ [lit] @ parseValues y
     \<and> ((gap, full, g) \<in> set (tuples1 statement) \<and> k < length (parseValues g)
          \<and> parseValues g ! k = lit \<and> k \<notin> set (columnIndicesToAnonymize cfg) \<longrightarrow>
        (\<exists>out. written (processStatement1 cfg statement n st1) = written st1 @ [out]
           \<and> sublist lit out))
     \<and> ((gap, full, g) \<in> set (tuples2 statement) \<and> k < length (parseValues g)
          \<and> parseValues g ! k = lit \<and> k \<notin> set (columnIndicesToAnonymize cfg) \<longrightarrow>
        (\<exists>out. written (processStatement2 cfg statement st2) = written st2 @ [out]
           \<and> sublist lit out))"
proof -
  have body: "quotedBody (a @ [quote, quote] @ b)"
    using assms(1,2) by (rule quotedBody_escaped)
  have lit: "lit = quote # (a @ [quote, quote] @ b) @ [quote]" by (simp add: lit_def)
  have one: "parseValues (w1 @ lit @ w2) = [lit]"
    and nq: "\<not> inQuotesAfter (w1 @ lit @ w2)"
    using parseValues_literal [OF body assms(3,4)] unfolding lit by simp_all
  have first: "parseValues (w1 @ lit @ w2 @ '','' @ y) = lit # parseValues y" for y
    using parseValues_comma_split [OF nq, of y] one by simp
  have last: "parseValues (x @ '','' @ w1 @ lit @ w2) = parseValues x @ [lit]"
    using parseValues_comma_split [OF assms(5), of "w1 @ lit @ w2"] one by simp
  have mid: "parseValues (x @ '','' @ w1 @ lit @ w2 @ '','' @ y) = parseValues x @ [lit] @ parseValues y"
    using parseValues_comma_split [OF assms(5), of "w1 @ lit @ w2 @ '','' @ y"] first [of y] by simp
  have s1: "(gap, full, g) \<in> set (tuples1 statement) \<and> k < length (parseValues g)
          \<and> parseValues g ! k = lit \<and> k \<notin> set (columnIndicesToAnonymize cfg) \<longrightarrow>
        (\<exists>out. written (processStatement1 cfg statement n st1) = written st1 @ [out]
           \<and> sublist lit out)"
    using processStatement1_contains [of gap full g statement k cfg n st1] by auto
  have s2: "(gap, full, g) \<in> set (tuples2 statement) \<and> k < length (parseValues g)
          \<and> parseValues g ! k = lit \<and> k \<notin> set (columnIndicesToAnonymize cfg) \<longrightarrow>
        (\<exists>out. written (processStatement2 cfg statement st2) = written st2 @ [out]
           \<and> sublist lit out)"
    using processStatement2_contains [of gap full g statement k cfg st2] by auto
  have esc: "parseLoop (quote # quote # r) v c True (Some quote)
       = parseLoop r v (c @ [quote, quote]) True (Some quote)" by simp
  from esc one first [of y] last mid s1 s2 show ?thesis by (intro conjI)
qed


theorem escaped_quote_round_trip_witness:
  "quotedBody ''O'' \<and> quotedBody ''Brien'' \<and> list_all isWhiteSpace '' '' \<and> list_all isWhiteSpace []
   \<and> \<not> inQuotesAfter ''1''
   \<and> parseValues (''1, '' @ quote # ''O'' @ [quote, quote] @ ''Brien'' @ [quote] @ '', '' @ quote # ''x'' @ [quote])
       = [''1'', quote # ''O'' @ [quote, quote] @ ''Brien'' @ [quote], quote # ''x'' @ [quote]]
   \<and> ('' VALUES '', ''(1, '' @ quote # ''O'' @ [quote, quote] @ ''Brien'' @ [quote] @ '', '' @ quote # ''x'' @ [quote] @ '')'',
        ''1, '' @ quote # ''O'' @ [quote, quote] @ ''Brien'' @ [quote] @ '', '' @ quote # ''x'' @ [quote])
       \<in> set (tuples1 (''INSERT INTO t VALUES (1, '' @ quote # ''O'' @ [quote, quote] @ ''Brien'' @ [quote] @ '', '' @ quote # ''x'' @ [quote] @ '');''))
   \<and> ('' '', ''(1, '' @ quote # ''O'' @ [quote, quote] @ ''Brien'' @ [quote] @ '', '' @ quote # ''x'' @ [quote] @ '')'',
        ''1, '' @ quote # ''O'' @ [quote, quote] @ ''Brien'' @ [quote] @ '', '' @ quote # ''x'' @ [quote])
       \<in> set (tuples2 (''INSERT INTO t VALUES (1, '' @ quote # ''O'' @ [quote, quote] @ ''Brien'' @ [quote] @ '', '' @ quote # ''x'' @ [quote] @ '');''))
   \<and> 1 \<notin> set (columnIndicesToAnonymize (exampleConfig ''t'' [2]))
   \<and> (\<exists>out. written (processStatement1 (exampleConfig ''t'' [2])
                   (''INSERT INTO t VALUES (1, '' @ quote # ''O'' @ [quote, quote] @ ''Brien'' @ [quote] @ '', '' @ quote # ''x'' @ [quote] @ '');'') 1 run0)
                = written run0 @ [out]
            \<and> sublist (quote # ''O'' @ [quote, quote] @ ''Brien'' @ [quote]) out)
   \<and> (\<exists>out. written (processStatement2 (exampleConfig ''t'' [2])
                   (''INSERT INTO t VALUES (1, '' @ quote # ''O'' @ [quote, quote] @ ''Brien'' @ [quote] @ '', '' @ quote # ''x'' @ [quote] @ '');'') run0)
                = written run0 @ [out]
            \<and> sublist (quote # ''O'' @ [quote, quote] @ ''Brien'' @ [quote]) out)"
proof -
  let ?lit = "quote # ''O'' @ [quote, quote] @ ''Brien'' @ [quote]"
  let ?g = "''1, '' @ quote # ''O'' @ [quote, quote] @ ''Brien'' @ [quote] @ '', '' @ quote # ''x'' @ [quote]"
  let ?full = "''(1, '' @ quote # ''O'' @ [quote, quote] @ ''Brien'' @ [quote] @ '', '' @ quote # ''x'' @ [quote] @ '')''"
  let ?stmt = "''INSERT INTO t VALUES (1, '' @ quote # ''O'' @ [quote, quote] @ ''Brien'' @ [quote] @ '', '' @ quote # ''x'' @ [quote] @ '');''"
  let ?cfg = "exampleConfig ''t'' [2]"
  have h1: "quotedBody ''O''" by simp
  have h2: "quotedBody ''Brien''" by simp
  have h3: "list_all isWhiteSpace '' ''" by simp
  have h4: "list_all isWhiteSpace []" by simp
  have h5: "\<not> inQuotesAfter ''1''" by code_simp
  have p1: "parseValues ''1'' = [''1'']" by code_simp
  have p2: "parseValues ('' '' @ quote # ''x'' @ [quote]) = [quote # ''x'' @ [quote]]" by code_simp
  have m1: "('' VALUES '', ?full, ?g) \<in> set (tuples1 ?stmt)" by code_simp
  have m2: "('' '', ?full, ?g) \<in> set (tuples2 ?stmt)" by code_simp
  have k: "1 < length (parseValues ?g)" "parseValues ?g ! 1 = ?lit" by code_simp+
  have c: "1 \<notin> set (columnIndicesToAnonymize ?cfg)" by code_simp
  note T1 = escaped_quote_round_trip [OF h1 h2 h3 h4 h5, where y = "'' '' @ quote # ''x'' @ [quote]"
      and gap = "'' VALUES ''" and full = ?full and g = ?g and k = 1 and statement = ?stmt
      and cfg = ?cfg and n = 1 and ?st1.0 = run0 and ?st2.0 = run0]
  note T2 = escaped_quote_round_trip [OF h1 h2 h3 h4 h5, where y = "'' '' @ quote # ''x'' @ [quote]"
      and gap = "'' ''" and full = ?full and g = ?g and k = 1 and statement = ?stmt
      and cfg = ?cfg and n = 1 and ?st1.0 = run0 and ?st2.0 = run0]
  from T1 have "parseValues (''1'' @ '','' @ '' '' @ ?lit @ [] @ '','' @ '' '' @ quote # ''x'' @ [quote])
      = parseValues ''1'' @ [?lit] @ parseValues ('' '' @ quote # ''x'' @ [quote])" by blast
  then have a: "parseValues ?g = [''1'', ?lit, quote # ''x'' @ [quote]]"
    using p2 by (simp only: p1 append_Cons append_Nil append_assoc)
  from T1 m1 k c have b: "\<exists>out. written (processStatement1 ?cfg ?stmt 1 run0) = written run0 @ [out]
      \<and> sublist ?lit out" by blast
  from T2 m2 k c have d: "\<exists>out. written (processStatement2 ?cfg ?stmt run0) = written run0 @ [out]
      \<and> sublist ?lit out" by blast
  show ?thesis by (intro conjI h1 h2 h3 h4 h5 a m1 m2 c b d)
qed

section \<open>Statement boundaries\<close>

lemma indexOf_char:
  "indexOf s [c] = (if c \<in> set s then int (length (takeWhile (\<lambda>x. x \<noteq> c) s)) else - 1)"
  by (induction s) (auto simp: startsWith_def Let_def)

lemma take_first:
  "c \<in> set s \<Longrightarrow> take (Suc (length (takeWhile (\<lambda>x. x \<noteq> c) s))) s = takeWhile (\<lambda>x. x \<noteq> c) s @ [c]"
  by (induction s) auto

lemma dataLoop_found:
  assumes "CHR '';'' \<in> set b"
  shows "dataLoop b =
     (case dataLoop (drop (Suc (length (takeWhile (\<lambda>x. x \<noteq> CHR '';'') b))) b) of
        (statements, rest) \<Rightarrow> ((takeWhile (\<lambda>x. x \<noteq> CHR '';'') b @ '';'') # statements, rest))"
proof -
  have n: "nat (indexOf b '';'' + 1) = Suc (length (takeWhile (\<lambda>x. x \<noteq> CHR '';'') b))"
    and f: "indexOf b '';'' \<noteq> - 1"
    using assms by (simp_all add: indexOf_char)
  show ?thesis
    by (subst dataLoop.simps) (simp only: n f take_first [OF assms] if_True not_False_eq_True)
qed

lemma dataLoop_none: "CHR '';'' \<notin> set b \<Longrightarrow> dataLoop b = ([], b)"
  by (subst dataLoop.simps) (simp add: indexOf_char)

lemma dataLoop_cut:
  "CHR '';'' \<notin> set body \<Longrightarrow>
   dataLoop (body @ '';'' @ rest) =
     (case dataLoop rest of (statements, r) \<Rightarrow> ((body @ '';'') # statements, r))"
proof -
  assume b: "CHR '';'' \<notin> set body"
  then have t: "takeWhile (\<lambda>x. x \<noteq> CHR '';'') (body @ '';'' @ rest) = body"
    by (induction body) auto
  have "CHR '';'' \<in> set (body @ '';'' @ rest)" by simp
  from dataLoop_found [OF this] show ?thesis by (simp only: t) simp
qed

lemma endsAtFirstSemicolon_snoc:
  "endsAtFirstSemicolon (body @ '';'') \<longleftrightarrow> CHR '';'' \<notin> set body"
  by (simp add: endsAtFirstSemicolon_def)

lemma dataLoop_spec:
  "concat (fst (dataLoop b)) @ snd (dataLoop b) = b
   \<and> CHR '';'' \<notin> set (snd (dataLoop b))
   \<and> list_all endsAtFirstSemicolon (fst (dataLoop b))"
proof (induction b rule: dataLoop.induct)
  case (1 buffer)
  show ?case
  proof (cases "CHR '';'' \<in> set buffer")
    case False
    then show ?thesis by (simp add: dataLoop_none)
  next
    case True
    let ?body = "takeWhile (\<lambda>x. x \<noteq> CHR '';'') buffer"
    let ?rest = "drop (Suc (length ?body)) buffer"
    have n: "nat (indexOf buffer '';'' + 1) = Suc (length ?body)"
      and f: "indexOf buffer '';'' \<noteq> - 1"
      using True by (simp_all add: indexOf_char)
    from "1.IH" [OF f] n have ih: "concat (fst (dataLoop ?rest)) @ snd (dataLoop ?rest) = ?rest"
      "CHR '';'' \<notin> set (snd (dataLoop ?rest))" "list_all endsAtFirstSemicolon (fst (dataLoop ?rest))"
      by simp_all
    have split: "buffer = (?body @ '';'') @ ?rest"
      using take_first [OF True] append_take_drop_id [of "Suc (length ?body)" buffer] by simp
    have nb: "CHR '';'' \<notin> set ?body" by (auto dest: set_takeWhileD)
    have d: "dataLoop buffer = ((?body @ '';'') # fst (dataLoop ?rest), snd (dataLoop ?rest))"
      using dataLoop_found [OF True] by (simp add: split_beta)
    have "concat (fst (dataLoop buffer)) @ snd (dataLoop buffer) = (?body @ '';'') @ ?rest"
      using ih(1) d by simp
    with split have a: "concat (fst (dataLoop buffer)) @ snd (dataLoop buffer) = buffer" by simp
    from d ih(2) have b: "CHR '';'' \<notin> set (snd (dataLoop buffer))" by simp
    from d ih(3) nb have c: "list_all endsAtFirstSemicolon (fst (dataLoop buffer))"
      by (simp add: endsAtFirstSemicolon_snoc)
    from a b c show ?thesis by blast
  qed
qed

lemma splitOn_nonempty: "splitOn sep s \<noteq> []"
  by (induction s) (auto split: list.splits)

lemma splitOn_parts: "list_all (\<lambda>p. sep \<notin> set p) (splitOn sep s)"
  by (induction s) (auto split: list.splits)

lemma splitOn_concat:
  "concat (map (\<lambda>p. p @ [sep]) (butlast (splitOn sep s))) @ last (splitOn sep s) = s"
proof (induction s)
  case Nil
  then show ?case by simp
next
  case (Cons c s)
  obtain p ps where sp: "splitOn sep s = p # ps"
    using splitOn_nonempty [of sep s] by (cases "splitOn sep s") auto
  with Cons show ?case by (cases ps) (auto)
qed

lemma lineStatements_spec:
  "(\<not> endsWith (trimEnd line) '';'' \<longrightarrow>
      lineStatements cur line = ([], cur @ line @ ''\<newline>''))
   \<and> (endsWith (trimEnd line) '';'' \<and> indexOf line '';'' = lastIndexOf line '';'' \<longrightarrow>
      lineStatements cur line = ([cur @ line @ ''\<newline>''], []))
   \<and> (endsWith (trimEnd line) '';'' \<and> indexOf line '';'' \<noteq> lastIndexOf line '';'' \<longrightarrow>
      (\<exists>pieces tail. concat pieces @ tail = cur @ line @ ''\<newline>''
         \<and> CHR '';'' \<notin> set tail
         \<and> list_all endsAtFirstSemicolon pieces
         \<and> lineStatements cur line = (filter (\<lambda>part. trim part \<noteq> []) pieces, [])))"
proof (intro conjI impI)
  assume "\<not> endsWith (trimEnd line) '';''"
  then show "lineStatements cur line = ([], cur @ line @ ''\<newline>'')"
    by (simp add: lineStatements_def Let_def)
next
  assume "endsWith (trimEnd line) '';'' \<and> indexOf line '';'' = lastIndexOf line '';''"
  then show "lineStatements cur line = ([cur @ line @ ''\<newline>''], [])"
    by (simp add: lineStatements_def Let_def)
next
  assume a: "endsWith (trimEnd line) '';'' \<and> indexOf line '';'' \<noteq> lastIndexOf line '';''"
  let ?b = "cur @ line @ ''\<newline>''"
  let ?pieces = "map (\<lambda>part. part @ '';'') (butlast (splitOn CHR '';'' ?b))"
  have 1: "concat ?pieces @ last (splitOn CHR '';'' ?b) = ?b" by (rule splitOn_concat)
  have all: "\<forall>p\<in>set (splitOn CHR '';'' ?b). CHR '';'' \<notin> set p"
    using splitOn_parts [of "CHR '';''" ?b] by (simp add: list_all_iff)
  have "last (splitOn CHR '';'' ?b) \<in> set (splitOn CHR '';'' ?b)"
    using splitOn_nonempty by (intro last_in_set)
  with all have 2: "CHR '';'' \<notin> set (last (splitOn CHR '';'' ?b))" by blast
  have 3: "list_all endsAtFirstSemicolon ?pieces"
    using all by (auto simp: list_all_iff endsAtFirstSemicolon_snoc dest: in_set_butlastD)
  have 4: "lineStatements cur line = (filter (\<lambda>part. trim part \<noteq> []) ?pieces, [])"
    using a by (simp add: lineStatements_def Let_def)
  from 1 2 3 4 show "\<exists>pieces tail. concat pieces @ tail = cur @ line @ ''\<newline>''
         \<and> CHR '';'' \<notin> set tail
         \<and> list_all endsAtFirstSemicolon pieces
         \<and> lineStatements cur line = (filter (\<lambda>part. trim part \<noteq> []) pieces, [])"
    by blast
qed


text \<open>
  Claim C7, as the code has it. Neither driver looks at quotes. The second variant cuts
  the buffer behind every semicolon: the statements it hands over, followed by what it
  keeps, are the buffer; what it keeps has no semicolon; every statement ends with a
  semicolon and has no other. The first variant hands nothing over until a line ends
  with a semicolon (whitespace aside); if that line has one semicolon, the whole buffer is
  one statement; if it has several, the buffer is cut behind every semicolon, the blank
  pieces and the text behind the last semicolon are dropped, and the other pieces are
  the statements.
\<close>

theorem statement_boundaries:
  "concat (fst (dataLoop b)) @ snd (dataLoop b) = b
   \<and> CHR '';'' \<notin> set (snd (dataLoop b))
   \<and> list_all endsAtFirstSemicolon (fst (dataLoop b))
   \<and> (CHR '';'' \<notin> set body \<longrightarrow>
        dataLoop (body @ '';'' @ rest) =
          (case dataLoop rest of (statements, r) \<Rightarrow> ((body @ '';'') # statements, r)))
   \<and> (\<not> endsWith (trimEnd line) '';'' \<longrightarrow>
        lineStatements cur line = ([], cur @ line @ ''\<newline>''))
   \<and> (endsWith (trimEnd line) '';'' \<and> indexOf line '';'' = lastIndexOf line '';'' \<longrightarrow>
        lineStatements cur line = ([cur @ line @ ''\<newline>''], []))
   \<and> (endsWith (trimEnd line) '';'' \<and> indexOf line '';'' \<noteq> lastIndexOf line '';'' \<longrightarrow>
        (\<exists>pieces tail. concat pieces @ tail = cur @ line @ ''\<newline>''
           \<and> CHR '';'' \<notin> set tail
           \<and> list_all endsAtFirstSemicolon pieces
           \<and> lineStatements cur line = (filter (\<lambda>part. trim part \<noteq> []) pieces, [])))"
  using dataLoop_spec [of b] dataLoop_cut [of body rest] lineStatements_spec [of line cur]
  by (intro conjI) blast+

theorem statement_boundaries_witness:
  "CHR '';'' \<notin> set ''a''
   \<and> dataLoop (''a'' @ '';'' @ ''b;c'') = ([''a;'', ''b;''], ''c'')
   \<and> \<not> endsWith (trimEnd ''x'') '';''
   \<and> lineStatements ''p'' ''x'' = ([], ''px\<newline>'')
   \<and> endsWith (trimEnd ''x; '') '';'' \<and> indexOf ''x; '' '';'' = lastIndexOf ''x; '' '';''
   \<and> lineStatements ''p'' ''x; '' = ([''px; \<newline>''], [])
   \<and> endsWith (trimEnd ''a;b;'') '';'' \<and> indexOf ''a;b;'' '';'' \<noteq> lastIndexOf ''a;b;'' '';''
   \<and> (\<exists>pieces tail. concat pieces @ tail = ''pa;b;\<newline>''
         \<and> CHR '';'' \<notin> set tail
         \<and> list_all endsAtFirstSemicolon pieces
         \<and> lineStatements ''p'' ''a;b;'' = (filter (\<lambda>part. trim part \<noteq> []) pieces, []))"
proof -
  have h1: "CHR '';'' \<notin> set ''a''" by simp
  have d: "dataLoop ''b;c'' = ([''b;''], ''c'')" by code_simp
  have h2: "\<not> endsWith (trimEnd ''x'') '';''" by code_simp
  have h3: "endsWith (trimEnd ''x; '') '';''" "indexOf ''x; '' '';'' = lastIndexOf ''x; '' '';''"
    by code_simp+
  have h4: "endsWith (trimEnd ''a;b;'') '';''" "indexOf ''a;b;'' '';'' \<noteq> lastIndexOf ''a;b;'' '';''"
    by code_simp+
  note T1 = statement_boundaries [where body = "''a''" and rest = "''b;c''" and line = "''x''" and cur = "''p''"]
  note T2 = statement_boundaries [where line = "''x; ''" and cur = "''p''"]
  note T3 = statement_boundaries [where line = "''a;b;''" and cur = "''p''"]
  from T1 h1 have "dataLoop (''a'' @ '';'' @ ''b;c'') =
      (case dataLoop ''b;c'' of (statements, r) \<Rightarrow> ((''a'' @ '';'') # statements, r))" by blast
  then have a: "dataLoop (''a'' @ '';'' @ ''b;c'') = ([''a;'', ''b;''], ''c'')"
    by (simp only: d prod.case append_Cons append_Nil)
  from T1 h2 have "lineStatements ''p'' ''x'' = ([], ''p'' @ ''x'' @ ''\<newline>'')" by blast
  then have b: "lineStatements ''p'' ''x'' = ([], ''px\<newline>'')"
    by (simp only: append_Cons append_Nil)
  from T2 h3 have "lineStatements ''p'' ''x; '' = ([''p'' @ ''x; '' @ ''\<newline>''], [])" by blast
  then have c: "lineStatements ''p'' ''x; '' = ([''px; \<newline>''], [])"
    by (simp only: append_Cons append_Nil)
  from T3 h4 have "\<exists>pieces tail. concat pieces @ tail = ''p'' @ ''a;b;'' @ ''\<newline>''
         \<and> CHR '';'' \<notin> set tail
         \<and> list_all endsAtFirstSemicolon pieces
         \<and> lineStatements ''p'' ''a;b;'' = (filter (\<lambda>part. trim part \<noteq> []) pieces, [])"
    by blast
  then have e: "\<exists>pieces tail. concat pieces @ tail = ''pa;b;\<newline>''
         \<and> CHR '';'' \<notin> set tail
         \<and> list_all endsAtFirstSemicolon pieces
         \<and> lineStatements ''p'' ''a;b;'' = (filter (\<lambda>part. trim part \<noteq> []) pieces, [])"
    by (simp only: append_Cons append_Nil)
  show ?thesis by (intro conjI h1 a h2 b h3 c h4 e)
qed

text \<open>
  The claim fails in both variants: the semicolon inside the quoted string of
  \<^verbatim>\<open>INSERT INTO t VALUES (1, 'a;b');\<close> ends a statement. The text arrives as two
  statements, the first of which stops inside the string, and both are counted and
  written as statements of their own.
\<close>

theorem quoted_semicolon_splits_statement_counterexample:
  "dataLoop (''INSERT INTO t VALUES (1, '' @ quote # ''a;b'' @ [quote] @ '');'')
     = ([''INSERT INTO t VALUES (1, '' @ quote # ''a;'', ''b'' @ quote # '');''], [])
   \<and> lineStatements [] (''INSERT INTO t VALUES (1, '' @ quote # ''a;b'' @ [quote] @ '');'')
     = ([''INSERT INTO t VALUES (1, '' @ quote # ''a;'', ''b'' @ quote # '');''], [])
   \<and> inQuotesAfter (''INSERT INTO t VALUES (1, '' @ quote # ''a'')
   \<and> processedStatements (processFile2 (exampleConfig ''t'' [1]) [''INSERT INTO t VALUES (1, '' @ quote # ''a;b'' @ [quote] @ '');'']) = 2
   \<and> processedStatements (processFile1 (exampleConfig ''t'' [1]) [''INSERT INTO t VALUES (1, '' @ quote # ''a;b'' @ [quote] @ '');'']) = 2
   \<and> written (processFile2 (exampleConfig ''t'' [1]) [''INSERT INTO t VALUES (1, '' @ quote # ''a;b'' @ [quote] @ '');''])
     = [''INSERT INTO t VALUES (1, '' @ quote # ''a;'' @ ''\<newline>'', ''b'' @ quote # '');'' @ ''\<newline>'']
   \<and> written (processFile1 (exampleConfig ''t'' [1]) [''INSERT INTO t VALUES (1, '' @ quote # ''a;b'' @ [quote] @ '');''])
     = [''INSERT INTO t VALUES (1, '' @ quote # ''a;'', ''b'' @ quote # '');'']"
  by code_simp

section \<open>Short tuples in a statement\<close>











section \<open>The text emitted for a modified tuple, read again\<close>
























end
